theory Spec2Isabelle
  imports Main
begin

section \<open>Data model\<close>

text \<open>
  The program is TypeScript run by Node. Its strings are modelled as \<open>string\<close>, read as
  UTF-8 bytes. A value the program handles is a string or, where it reads a property
  that a plain object only inherits, the member of \<open>Object.prototype\<close> of that name: a
  function, or \<open>Object.prototype\<close> itself for \<open>__proto__\<close>. None of these members is a
  string and all of them are truthy.
\<close>

datatype jsval = Str string | Inherited string

definition protoNames :: "string list" where
  "protoNames =
     [''constructor'', ''__defineGetter__'', ''__defineSetter__'', ''hasOwnProperty'',
      ''__lookupGetter__'', ''__lookupSetter__'', ''isPrototypeOf'', ''propertyIsEnumerable'',
      ''toString'', ''valueOf'', ''__proto__'', ''toLocaleString'']"

text \<open>
  A row of the CSV parser is a plain object with string values; it is given as the list
  \<open>Object.entries\<close> yields, and has pairwise distinct keys (\<open>wf_record\<close>). The records the
  program builds are plain objects too, given by their own properties in the order
  JavaScript enumerates them: the keys that are array indices first, in ascending numeric
  order, then the other keys in the order of their creation.
\<close>

type_synonym CsvRecord = "(string \<times> string) list"

type_synonym MergedRecord = "(string \<times> jsval) list"

definition wf_record :: "CsvRecord \<Rightarrow> bool" where
  "wf_record r = distinct (map fst r)"

text \<open>
  \<open>filteredRecord[key] = value\<close> in \<open>filterRecord\<close>, whose keys arrive in the order of
  \<open>Object.entries\<close> of a row: an existing key keeps its position, a new key goes last.
\<close>

fun put :: "CsvRecord \<Rightarrow> string \<Rightarrow> string \<Rightarrow> CsvRecord" where
  "put [] k v = [(k, v)]"
| "put ((k', v') # r) k v = (if k' = k then (k, v) # r else (k', v') # put r k v)"

text \<open>
  An array index is the canonical decimal numeral of a number below \<open>2^32 - 1\<close>.
\<close>

definition isDigit :: "char \<Rightarrow> bool" where
  "isDigit c = (48 \<le> (of_char c :: int) \<and> (of_char c :: int) \<le> 57)"

definition numeral_of :: "string \<Rightarrow> int" where
  "numeral_of s = foldl (\<lambda>n c. 10 * n + (of_char c - 48)) 0 s"

definition isArrayIndex :: "string \<Rightarrow> bool" where
  "isArrayIndex s =
     (s \<noteq> [] \<and> list_all isDigit s \<and> (if hd s = CHR ''0'' then s = ''0'' else True) \<and>
      numeral_of s < 4294967295)"

text \<open>The place of a new array-index key among the own properties.\<close>

fun insertIndex :: "MergedRecord \<Rightarrow> string \<Rightarrow> jsval \<Rightarrow> MergedRecord" where
  "insertIndex [] k v = [(k, v)]"
| "insertIndex ((k', v') # r) k v =
     (if isArrayIndex k' \<and> numeral_of k' < numeral_of k then (k', v') # insertIndex r k v
      else (k, v) # (k', v') # r)"

fun update_own :: "MergedRecord \<Rightarrow> string \<Rightarrow> jsval \<Rightarrow> MergedRecord" where
  "update_own [] k v = []"
| "update_own ((k', v') # r) k v = (if k' = k then (k, v) # r else (k', v') # update_own r k v)"

text \<open>
  Defining an own property, as the spread \<open>{ ...r }\<close> does for every own property of
  \<open>r\<close>: an existing key keeps its position, a new key takes its place in the order of
  enumeration.
\<close>

definition define_own :: "MergedRecord \<Rightarrow> string \<Rightarrow> jsval \<Rightarrow> MergedRecord" where
  "define_own r k v =
     (if k \<in> fst ` set r then update_own r k v
      else if isArrayIndex k then insertIndex r k v
      else r @ [(k, v)])"

text \<open>
  \<open>obj[key] = value\<close>. Where the object has no own property \<open>__proto__\<close> the
  assignment reaches the setter it inherits, which creates no own property.
\<close>

definition assign :: "MergedRecord \<Rightarrow> string \<Rightarrow> jsval \<Rightarrow> MergedRecord" where
  "assign r k v =
     (if k \<in> fst ` set r then update_own r k v
      else if k = ''__proto__'' then r
      else define_own r k v)"

text \<open>\<open>{ ...base, ...r }\<close>.\<close>

definition spread :: "MergedRecord \<Rightarrow> MergedRecord \<Rightarrow> MergedRecord" where
  "spread base r = fold (\<lambda>(k, v) acc. define_own acc k v) r base"

text \<open>
  \<open>obj[key]\<close>: the own property, else the member inherited from \<open>Object.prototype\<close>,
  else \<open>undefined\<close> (\<open>None\<close>). \<open>key in obj\<close> is true in the first two cases.
\<close>

definition get :: "MergedRecord \<Rightarrow> string \<Rightarrow> jsval option" where
  "get r k =
     (case map_of r k of
        Some v \<Rightarrow> Some v
      | None \<Rightarrow> (if k \<in> set protoNames then Some (Inherited k) else None))"

definition has :: "MergedRecord \<Rightarrow> string \<Rightarrow> bool" where
  "has r k = (k \<in> fst ` set r \<or> k \<in> set protoNames)"

text \<open>\<open>x || ""\<close> for a property read \<open>x\<close>: \<open>undefined\<close> and \<open>""\<close> are the falsy cases.\<close>

definition or_empty :: "jsval option \<Rightarrow> jsval" where
  "or_empty x = (case x of None \<Rightarrow> Str [] | Some v \<Rightarrow> (if v = Str [] then Str [] else v))"

record ColumnConfig =
  columns :: "string list"
  columnsToRemove :: "string list option"
  duplicateCheckColumns :: "string list option"

record ProcessingResult =
  success :: bool
  records :: "MergedRecord list"
  totalFiles :: nat
  totalRecords :: nat
  errors :: "string list"

record DuplicateValue =
  dup_value :: string
  dup_count :: nat
  rowNumbers :: "nat list"

record DuplicateCheckResult =
  column :: string
  duplicateValues :: "DuplicateValue list"

text \<open>
  What becomes of a call, or of the promise an \<open>async\<close> function returns: it returns
  (resolves), it throws (rejects), it waits for a promise that never settles, or an
  \<open>error\<close> event without a listener ends the process.
\<close>

datatype 'a outcome = Returns 'a | Throws string | NeverSettles | Crashes string

section \<open>String operations of the platform\<close>

text \<open>
  Lower-casing of the ASCII letters. \<open>String.prototype.toLowerCase\<close> itself depends on
  the Unicode tables of the platform and is a parameter of a run (\<open>toLowerCase\<close> in
  \<open>World\<close> below); on ASCII text it is \<open>lowerASCII\<close>.
\<close>

definition lower_char :: "char \<Rightarrow> char" where
  "lower_char c =
     (let n = (of_char c :: nat) in if 65 \<le> n \<and> n \<le> 90 then char_of (n + 32) else c)"

definition lowerASCII :: "string \<Rightarrow> string" where
  "lowerASCII s = map lower_char s"

definition endsWith :: "string \<Rightarrow> string \<Rightarrow> bool" where
  "endsWith s suffix =
     (length suffix \<le> length s \<and> drop (length s - length suffix) s = suffix)"

text \<open>\<open>s.includes(sub)\<close>.\<close>

fun includes_str :: "string \<Rightarrow> string \<Rightarrow> bool" where
  "includes_str [] sub = (sub = [])"
| "includes_str (c # cs) sub = (take (length sub) (c # cs) = sub \<or> includes_str cs sub)"

text \<open>\<open>s.indexOf("_")\<close>: \<open>None\<close> stands for \<open>-1\<close>.\<close>

fun indexOf :: "string \<Rightarrow> char \<Rightarrow> nat option" where
  "indexOf [] c = None"
| "indexOf (x # xs) c =
     (if x = c then Some 0 else (case indexOf xs c of None \<Rightarrow> None | Some i \<Rightarrow> Some (Suc i)))"

definition substring :: "string \<Rightarrow> nat \<Rightarrow> nat \<Rightarrow> string" where
  "substring s i j = take (j - i) (drop i s)"

text \<open>\<open>xs.join(sep)\<close>.\<close>

fun join :: "string \<Rightarrow> string list \<Rightarrow> string" where
  "join sep [] = []"
| "join sep [x] = x"
| "join sep (x # y # ys) = x @ sep @ join sep (y # ys)"

text \<open>
  \<open>String.prototype.trim\<close> removes the white space and line terminator code points
  from both ends. \<open>strip\<close> removes them from the front of a list of UTF-8 byte values:
  U+0009 to U+000D and U+0020 (one byte), U+00A0 (two bytes), U+1680, U+2000 to U+200A,
  U+2028, U+2029, U+202F, U+205F, U+3000 and U+FEFF (three bytes). \<open>strip_rev\<close> does the
  same on the reversed string.
\<close>

definition ws1 :: "nat \<Rightarrow> bool" where
  "ws1 a = ((9 \<le> a \<and> a \<le> 13) \<or> a = 32)"

definition ws2 :: "nat \<Rightarrow> nat \<Rightarrow> bool" where
  "ws2 a b = (a = 194 \<and> b = 160)"

definition ws3 :: "nat \<Rightarrow> nat \<Rightarrow> nat \<Rightarrow> bool" where
  "ws3 a b c =
     ((a = 225 \<and> b = 154 \<and> c = 128) \<or>
      (a = 226 \<and> b = 128 \<and> ((128 \<le> c \<and> c \<le> 138) \<or> c = 168 \<or> c = 169 \<or> c = 175)) \<or>
      (a = 226 \<and> b = 129 \<and> c = 159) \<or>
      (a = 227 \<and> b = 128 \<and> c = 128) \<or>
      (a = 239 \<and> b = 187 \<and> c = 191))"

fun strip :: "nat list \<Rightarrow> nat list" where
  "strip (a # b # c # s) =
     (if ws1 a then strip (b # c # s)
      else if ws2 a b then strip (c # s)
      else if ws3 a b c then strip s
      else a # b # c # s)"
| "strip [a, b] =
     (if ws1 a then strip [b] else if ws2 a b then [] else [a, b])"
| "strip [a] = (if ws1 a then [] else [a])"
| "strip [] = []"

fun strip_rev :: "nat list \<Rightarrow> nat list" where
  "strip_rev (c # b # a # s) =
     (if ws1 c then strip_rev (b # a # s)
      else if ws2 b c then strip_rev (a # s)
      else if ws3 a b c then strip_rev s
      else c # b # a # s)"
| "strip_rev [c, b] =
     (if ws1 c then strip_rev [b] else if ws2 b c then [] else [c, b])"
| "strip_rev [c] = (if ws1 c then [] else [c])"
| "strip_rev [] = []"

definition trim :: "string \<Rightarrow> string" where
  "trim s = map char_of (rev (strip_rev (rev (strip (map of_char s)))))"

text \<open>
  \<open>path.basename(p)\<close> and \<open>path.basename(p, ext)\<close> of Node's POSIX path module: the
  last component of the path, trailing slashes ignored; with \<open>ext\<close>, that suffix is
  removed from the component unless the component is the suffix itself. A path that is
  the suffix itself gives the empty string.
\<close>

fun dropTrailingSlashes :: "string \<Rightarrow> string" where
  "dropTrailingSlashes s = rev (dropWhile (\<lambda>c. c = CHR ''/'') (rev s))"

definition basename :: "string \<Rightarrow> string" where
  "basename p = rev (takeWhile (\<lambda>c. c \<noteq> CHR ''/'') (rev (dropTrailingSlashes p)))"

definition basename_ext :: "string \<Rightarrow> string \<Rightarrow> string" where
  "basename_ext p ext =
     (if ext \<noteq> [] \<and> ext = p then []
      else
        (let b = basename p
         in if ext \<noteq> [] \<and> endsWith b ext \<and> b \<noteq> ext
            then take (length b - length ext) b
            else b))"

text \<open>
  \<open>path.join(dir, file)\<close> of Node's POSIX path module: the arguments that are not empty
  joined by a slash, then normalised. Normalising drops empty segments and \<open>.\<close>, lets
  \<open>..\<close> remove the segment in front of it (a relative path keeps the \<open>..\<close> it cannot
  resolve), and keeps a leading and a trailing slash.
\<close>

fun splitSlash :: "string \<Rightarrow> string list" where
  "splitSlash [] = [ [] ]"
| "splitSlash (c # cs) =
     (case splitSlash cs of
        [] \<Rightarrow> [ [c] ]
      | seg # segs \<Rightarrow> (if c = CHR ''/'' then [] # seg # segs else (c # seg) # segs))"

text \<open>The segments kept so far are held in reverse.\<close>

fun normalizeSegments :: "bool \<Rightarrow> string list \<Rightarrow> string list \<Rightarrow> string list" where
  "normalizeSegments allowAboveRoot res [] = rev res"
| "normalizeSegments allowAboveRoot res (seg # segs) =
     (if seg = [] \<or> seg = ''.'' then normalizeSegments allowAboveRoot res segs
      else if seg = ''..'' then
        (case res of
           [] \<Rightarrow> normalizeSegments allowAboveRoot (if allowAboveRoot then [''..''] else []) segs
         | prev # earlier \<Rightarrow>
             (if prev = ''..''
              then normalizeSegments allowAboveRoot
                     (if allowAboveRoot then ''..'' # prev # earlier else prev # earlier) segs
              else normalizeSegments allowAboveRoot earlier segs))
      else normalizeSegments allowAboveRoot (seg # res) segs)"

definition normalize :: "string \<Rightarrow> string" where
  "normalize p =
     (if p = [] then ''.''
      else
        (let isAbsolute = (hd p = CHR ''/'');
             trailingSeparator = (last p = CHR ''/'');
             body = join ''/'' (normalizeSegments (\<not> isAbsolute) [] (splitSlash p))
         in if body = [] then (if isAbsolute then ''/'' else if trailingSeparator then ''./'' else ''.'')
            else (if isAbsolute then ''/'' else []) @ body @
                 (if trailingSeparator then ''/'' else [])))"

definition path_join :: "string \<Rightarrow> string \<Rightarrow> string" where
  "path_join dir file =
     (let joined = join ''/'' (filter (\<lambda>a. a \<noteq> []) [dir, file])
      in if joined = [] then ''.'' else normalize joined)"

section \<open>The outside world\<close>

text \<open>
  The file system, the CSV parser, the clock, the CSV writer and the case tables of the
  platform are collaborators of the program. A run is given their answers:
  \<^item> \<open>toLowerCase\<close>: \<open>String.prototype.toLowerCase\<close>;
  \<^item> \<open>existsSync\<close> and \<open>readdirSync\<close> of \<open>fs\<close>, the latter with the message it throws;
  \<^item> \<open>openCsv\<close>: what \<open>fs.createReadStream(path).pipe(csv())\<close> does for a path, see below;
  \<^item> \<open>readConfig\<close>: the content of a configuration file as \<open>JSON.parse\<close> and the shape
    checks of \<open>loadColumnConfig\<close> see it, or the message of what they throw;
  \<^item> the time stamp, and whether the writer throws.
\<close>

text \<open>
  Either the read stream emits \<open>error\<close> (the path is a directory, the file may not be
  read), or the parser gets the content and emits \<open>headers\<close> if there is a first line,
  then \<open>data\<close> for every row, then \<open>end\<close> or an \<open>error\<close> of its own.
\<close>

datatype fileRead =
    ReadError string
  | Parsed "string list option" "CsvRecord list" "string option"

record World =
  toLowerCase :: "string \<Rightarrow> string"
  existsSync :: "string \<Rightarrow> bool"
  readdirSync :: "string \<Rightarrow> string + string list"
  openCsv :: "string \<Rightarrow> fileRead"
  readConfig :: "string \<Rightarrow> string + ColumnConfig"
  generateTimestamp :: string
  writeError :: "string option"

section \<open>csv-reader.ts\<close>

text \<open>
  Both functions attach their \<open>error\<close> listener to the parser, the stream that \<open>pipe\<close>
  returns. An \<open>error\<close> of the read stream has no listener and ends the process.
  \<open>readCsvFile\<close> resolves on \<open>end\<close>. \<open>getCsvHeaders\<close> resolves on \<open>headers\<close> and has no
  listener for \<open>end\<close>: without a first line its promise is never settled.
\<close>

definition readCsvFile :: "World \<Rightarrow> string \<Rightarrow> CsvRecord list outcome" where
  "readCsvFile w filePath =
     (if \<not> existsSync w filePath then Throws (''File does not exist: '' @ filePath)
      else
        (case openCsv w filePath of
           ReadError e \<Rightarrow> Crashes e
         | Parsed headers rows None \<Rightarrow> Returns rows
         | Parsed headers rows (Some e) \<Rightarrow>
             Throws (''Error reading CSV file '' @ filePath @ '': '' @ e)))"

definition getCsvHeaders :: "World \<Rightarrow> string \<Rightarrow> string list outcome" where
  "getCsvHeaders w filePath =
     (if \<not> existsSync w filePath then Throws (''File does not exist: '' @ filePath)
      else
        (case openCsv w filePath of
           ReadError e \<Rightarrow> Crashes e
         | Parsed (Some headers) rows err \<Rightarrow> Returns headers
         | Parsed None rows None \<Rightarrow> NeverSettles
         | Parsed None rows (Some e) \<Rightarrow>
             Throws (''Error reading CSV headers from '' @ filePath @ '': '' @ e)))"

section \<open>utils.ts\<close>

definition ENTERPRISE_MAPPING :: "(string \<times> jsval) list" where
  "ENTERPRISE_MAPPING =
     [(''ghec'', Str ''GHEC''), (''ghec-emu'', Str ''GHEC-EMU''), (''ghes'', Str ''GHES'')]"

text \<open>
  A thrown \<open>Error\<close> is \<open>Inl\<close> of its message. \<open>ENTERPRISE_MAPPING\<close> is a plain object:
  \<open>ENTERPRISE_MAPPING[enterprisePrefix]\<close> is \<open>get\<close>, and \<open>!enterprise\<close> holds of
  \<open>undefined\<close> and of the empty string.
\<close>

definition extractEnterprise :: "World \<Rightarrow> string \<Rightarrow> string + jsval" where
  "extractEnterprise w filename =
     (let base = basename_ext filename ''.csv''
      in case indexOf base CHR ''_'' of
           None \<Rightarrow>
             Inl (''Invalid filename format: '' @ filename @
                  ''. Expected format: enterprise_org_data.csv'')
         | Some firstUnderscore \<Rightarrow>
             (let enterprisePrefix = toLowerCase w (substring base 0 firstUnderscore)
              in case get ENTERPRISE_MAPPING enterprisePrefix of
                   None \<Rightarrow>
                     Inl (''Unknown enterprise prefix: '' @ enterprisePrefix @
                          '' in file '' @ filename)
                 | Some enterprise \<Rightarrow>
                     (if enterprise = Str []
                      then Inl (''Unknown enterprise prefix: '' @ enterprisePrefix @
                                '' in file '' @ filename)
                      else Inr enterprise)))"

definition getCsvFiles :: "World \<Rightarrow> string \<Rightarrow> string + string list" where
  "getCsvFiles w inputDir =
     (if \<not> existsSync w inputDir then Inl (''Input directory does not exist: '' @ inputDir)
      else
        (case readdirSync w inputDir of
           Inl e \<Rightarrow> Inl e
         | Inr files \<Rightarrow>
             (let csvFiles =
                    map (path_join inputDir)
                      (filter (\<lambda>file. endsWith (toLowerCase w file) ''.csv'') files)
              in if length csvFiles = 0
                 then Inl (''No CSV files found in directory: '' @ inputDir)
                 else Inr csvFiles)))"

section \<open>merger.ts\<close>

text \<open>The UTF-8 bytes of the warning sign U+26A0 U+FE0F and of the wastebasket U+1F5D1 U+FE0F.\<close>

definition warning_sign :: string where
  "warning_sign = [CHR 0xE2, CHR 0x9A, CHR 0xA0, CHR 0xEF, CHR 0xB8, CHR 0x8F]"

definition wastebasket_sign :: string where
  "wastebasket_sign = [CHR 0xF0, CHR 0x9F, CHR 0x97, CHR 0x91, CHR 0xEF, CHR 0xB8, CHR 0x8F]"

text \<open>\<open>columnConfig.columnsToRemove || []\<close>.\<close>

definition removeList :: "ColumnConfig \<Rightarrow> string list" where
  "removeList cfg = (case columnsToRemove cfg of None \<Rightarrow> [] | Some xs \<Rightarrow> xs)"

text \<open>The local \<open>unexpectedColumns\<close> of \<open>validateAndFilterColumns\<close>.\<close>

definition unexpectedColumns :: "string list \<Rightarrow> ColumnConfig \<Rightarrow> string list" where
  "unexpectedColumns headers cfg =
     filter (\<lambda>header. header \<notin> set (columns cfg) \<and> header \<notin> set (removeList cfg)) headers"

definition warningMsg :: "string \<Rightarrow> string list \<Rightarrow> string" where
  "warningMsg filePath unexpected =
     warning_sign @ ''  File '' @ [CHR 0x22] @ basename filePath @ [CHR 0x22] @
     '' contains unexpected columns not in configuration: ['' @ join '', '' unexpected @ '']''"

text \<open>The informational line \<open>console.log\<close> prints for the removed columns of a file.\<close>

definition removedNote :: "string \<Rightarrow> string list \<Rightarrow> string" where
  "removedNote filePath removedColumns =
     wastebasket_sign @ ''  Removed columns from '' @ [CHR 0x22] @ basename filePath @
     [CHR 0x22] @ '': ['' @ join '', '' removedColumns @ '']''"

record Validated =
  filteredHeaders :: "string list"
  warnings :: "string list"

text \<open>
  \<open>validateAndFilterColumns\<close> returns its result together with the lines it prints on
  the console (\<open>console.warn\<close>, then \<open>console.log\<close>).
\<close>

definition validateAndFilterColumns ::
  "string \<Rightarrow> string list \<Rightarrow> ColumnConfig \<Rightarrow> Validated \<times> string list" where
  "validateAndFilterColumns filePath headers cfg =
     (let unexpected = unexpectedColumns headers cfg;
          warned = (if length unexpected > 0 then [warningMsg filePath unexpected] else []);
          kept = filter (\<lambda>header. header \<notin> set (removeList cfg)) headers;
          removedColumns = filter (\<lambda>header. header \<in> set (removeList cfg)) headers;
          noted = (if set (removeList cfg) \<noteq> {} \<and> length removedColumns > 0
                   then [removedNote filePath removedColumns] else [])
      in (\<lparr>filteredHeaders = kept, warnings = warned\<rparr>, warned @ noted))"

definition filterRecord :: "CsvRecord \<Rightarrow> string set \<Rightarrow> CsvRecord" where
  "filterRecord r toRemove =
     fold (\<lambda>(key, val) filteredRecord.
             if key \<notin> toRemove then put filteredRecord key val else filteredRecord) r []"

subsection \<open>checkForDuplicates\<close>

text \<open>
  The \<open>Map\<close> from a value to its count and row numbers, in insertion order. \<open>note_value\<close>
  is the body of the \<open>forEach\<close> callback once the value is known not to be blank.
\<close>

type_synonym valueMap = "(string \<times> nat \<times> nat list) list"

fun note_value :: "valueMap \<Rightarrow> string \<Rightarrow> nat \<Rightarrow> valueMap" where
  "note_value [] v rowNumber = [(v, 1, [rowNumber])]"
| "note_value ((k, c, rows) # m) v rowNumber =
     (if k = v then (k, c + 1, rows @ [rowNumber]) # m
      else (k, c, rows) # note_value m v rowNumber)"

text \<open>
  \<open>value.trim()\<close> is a call of the property \<open>trim\<close> of the value: where the value is
  not a string but a member inherited from \<open>Object.prototype\<close>, there is no such
  function and the call throws a \<open>TypeError\<close>.
\<close>

fun forEachRecord ::
  "MergedRecord list \<Rightarrow> nat \<Rightarrow> string \<Rightarrow> valueMap \<Rightarrow> string + valueMap" where
  "forEachRecord [] index col m = Inr m"
| "forEachRecord (r # rs) index col m =
     (case or_empty (get r col) of
        Inherited k \<Rightarrow> Inl ''value.trim is not a function''
      | Str v \<Rightarrow>
          (if trim v = [] then forEachRecord rs (index + 1) col m
           else forEachRecord rs (index + 1) col (note_value m v (index + 2))))"

text \<open>
  \<open>Array.prototype.sort\<close> is stable; with the comparator \<open>b.count - a.count\<close> it is the
  stable sort on the negated count.
\<close>

definition duplicateValuesOf :: "valueMap \<Rightarrow> DuplicateValue list" where
  "duplicateValuesOf m =
     sort_key (\<lambda>d. - int (dup_count d))
       (map (\<lambda>(v, c, rows). \<lparr>dup_value = v, dup_count = c, rowNumbers = rows\<rparr>)
          (filter (\<lambda>(v, c, rows). c > 1) m))"

text \<open>\<open>records.length > 0 && column in records[0]\<close>.\<close>

definition columnExists :: "MergedRecord list \<Rightarrow> string \<Rightarrow> bool" where
  "columnExists rs col = (case rs of [] \<Rightarrow> False | r # _ \<Rightarrow> has r col)"

fun checkForDuplicates ::
  "MergedRecord list \<Rightarrow> string list \<Rightarrow> string + DuplicateCheckResult list" where
  "checkForDuplicates rs [] = Inr []"
| "checkForDuplicates rs (col # columnsToCheck) =
     (if \<not> columnExists rs col then checkForDuplicates rs columnsToCheck
      else
        (case forEachRecord rs 0 col [] of
           Inl e \<Rightarrow> Inl e
         | Inr m \<Rightarrow>
             (case checkForDuplicates rs columnsToCheck of
                Inl e \<Rightarrow> Inl e
              | Inr results \<Rightarrow>
                  Inr (\<lparr>column = col, duplicateValues = duplicateValuesOf m\<rparr> # results))))"

subsection \<open>mergeCsvFiles\<close>

text \<open>
  The body of the inner \<open>try\<close> for one file, on the accumulator \<open>result\<close>: the updated
  accumulator, and what becomes of the body. The warnings are pushed before the records
  are read, so they stay in the accumulator when the read fails.
\<close>

definition tryFile ::
  "World \<Rightarrow> ColumnConfig \<Rightarrow> string \<Rightarrow> ProcessingResult \<Rightarrow> ProcessingResult \<times> unit outcome" where
  "tryFile w cfg filePath res =
     (case extractEnterprise w (basename filePath) of
        Inl e \<Rightarrow> (res, Throws e)
      | Inr enterprise \<Rightarrow>
          (case getCsvHeaders w filePath of
             Throws e \<Rightarrow> (res, Throws e)
           | NeverSettles \<Rightarrow> (res, NeverSettles)
           | Crashes e \<Rightarrow> (res, Crashes e)
           | Returns headers \<Rightarrow>
               (let validated = fst (validateAndFilterColumns filePath headers cfg);
                    res1 = res\<lparr>errors := errors res @ warnings validated\<rparr>
                in case readCsvFile w filePath of
                     Throws e \<Rightarrow> (res1, Throws e)
                   | NeverSettles \<Rightarrow> (res1, NeverSettles)
                   | Crashes e \<Rightarrow> (res1, Crashes e)
                   | Returns recs \<Rightarrow>
                       (let transformedRecords =
                              map (\<lambda>r. spread [(''Enterprise'', enterprise)]
                                          (map (\<lambda>(k, v). (k, Str v))
                                             (filterRecord r (set (removeList cfg))))) recs
                        in (res1\<lparr>records := records res1 @ transformedRecords,
                                  totalRecords := totalRecords res1 + length recs\<rparr>,
                            Returns ())))))"

text \<open>The \<open>for\<close> loop with its inner \<open>catch\<close>, which records the message and throws again.\<close>

fun forEachFile ::
  "World \<Rightarrow> ColumnConfig \<Rightarrow> string list \<Rightarrow> ProcessingResult \<Rightarrow> ProcessingResult \<times> unit outcome" where
  "forEachFile w cfg [] res = (res, Returns ())"
| "forEachFile w cfg (filePath # csvFiles) res =
     (case tryFile w cfg filePath res of
        (res', Throws fileError) \<Rightarrow>
          (let errorMsg = ''Error processing file '' @ basename filePath @ '': '' @ fileError
           in (res'\<lparr>errors := errors res' @ [errorMsg]\<rparr>, Throws errorMsg))
      | (res', NeverSettles) \<Rightarrow> (res', NeverSettles)
      | (res', Crashes e) \<Rightarrow> (res', Crashes e)
      | (res', Returns u) \<Rightarrow> forEachFile w cfg csvFiles res')"

text \<open>The outer \<open>catch\<close>.\<close>

definition caught :: "ProcessingResult \<Rightarrow> string \<Rightarrow> ProcessingResult" where
  "caught res errorMsg =
     res\<lparr>success := False,
         errors := (if errorMsg \<notin> set (errors res) then errors res @ [errorMsg] else errors res)\<rparr>"

definition mergeCsvFiles :: "World \<Rightarrow> string \<Rightarrow> ColumnConfig \<Rightarrow> ProcessingResult outcome" where
  "mergeCsvFiles w inputDir cfg =
     (let result = \<lparr>success = False, records = [], totalFiles = 0, totalRecords = 0,
                    errors = []\<rparr>
      in case getCsvFiles w inputDir of
           Inl e \<Rightarrow> Returns (caught result e)
         | Inr csvFiles \<Rightarrow>
             (case forEachFile w cfg csvFiles (result\<lparr>totalFiles := length csvFiles\<rparr>) of
                (res, Throws e) \<Rightarrow> Returns (caught res e)
              | (res, NeverSettles) \<Rightarrow> NeverSettles
              | (res, Crashes e) \<Rightarrow> Crashes e
              | (res, Returns u) \<Rightarrow> Returns (res\<lparr>success := True\<rparr>)))"

subsection \<open>orderRecords\<close>

definition orderRecord :: "string list \<Rightarrow> MergedRecord \<Rightarrow> MergedRecord" where
  "orderRecord orderedColumns r =
     fold (\<lambda>col orderedRecord. assign orderedRecord col (or_empty (get r col)))
       orderedColumns [(''Enterprise'', Str [])]"

definition orderRecords :: "MergedRecord list \<Rightarrow> ColumnConfig \<Rightarrow> MergedRecord list" where
  "orderRecords rs cfg = map (orderRecord (''Enterprise'' # columns cfg)) rs"

subsection \<open>processCsvMerge\<close>

record WriteCall =
  writtenRecords :: "MergedRecord list"
  outputPath :: string
  writtenColumns :: "string list"

text \<open>The figures of the summary printed at the end of a successful run.\<close>

record Summary =
  filesProcessed :: nat
  recordsMerged :: nat
  outputFile :: string
  columnCount :: nat
  warningCount :: nat
  duplicateResults :: "DuplicateCheckResult list"

definition loadColumnConfig :: "World \<Rightarrow> string \<Rightarrow> string + ColumnConfig" where
  "loadColumnConfig w configPath =
     (case readConfig w configPath of
        Inl e \<Rightarrow> Inl (''Error loading column configuration: '' @ e)
      | Inr cfg \<Rightarrow> Inr cfg)"

text \<open>
  \<open>processCsvMerge\<close>: what becomes of the call, together with the calls it made to
  \<open>writeCsvFile\<close>. The duplicate check runs after the file is written.
\<close>

definition processCsvMerge ::
  "World \<Rightarrow> string \<Rightarrow> string \<Rightarrow> string \<Rightarrow> string \<Rightarrow> Summary outcome \<times> WriteCall list" where
  "processCsvMerge w inputDir outputDir outputFilename columnConfigPath =
     (case loadColumnConfig w columnConfigPath of
        Inl e \<Rightarrow> (Throws e, [])
      | Inr cfg \<Rightarrow>
          (case mergeCsvFiles w inputDir cfg of
             Throws e \<Rightarrow> (Throws e, [])
           | NeverSettles \<Rightarrow> (NeverSettles, [])
           | Crashes e \<Rightarrow> (Crashes e, [])
           | Returns result \<Rightarrow>
              (if \<not> success result
               then (Throws (''Merge failed: '' @ join '', '' (errors result)), [])
               else
                (let warned = filter (\<lambda>e. includes_str e warning_sign) (errors result);
                     actualErrors = filter (\<lambda>e. \<not> includes_str e warning_sign) (errors result)
                 in if length actualErrors > 0
                    then (Throws (''Merge failed: '' @ join '', '' actualErrors), [])
                    else
                      (let orderedRecords = orderRecords (records result) cfg;
                           path = path_join outputDir
                                    (outputFilename @ ''_'' @ generateTimestamp w @ ''.csv'');
                           orderedColumns = ''Enterprise'' # columns cfg;
                           call = \<lparr>writtenRecords = orderedRecords, outputPath = path,
                                   writtenColumns = orderedColumns\<rparr>
                       in case writeError w of
                            Some e \<Rightarrow>
                              (Throws (''Error writing CSV file '' @ path @ '': '' @ e), [call])
                          | None \<Rightarrow>
                              (case (case duplicateCheckColumns cfg of
                                       None \<Rightarrow> Inr []
                                     | Some cols \<Rightarrow>
                                         (if length cols > 0
                                          then checkForDuplicates orderedRecords cols
                                          else Inr [])) of
                                 Inl e \<Rightarrow> (Throws e, [call])
                               | Inr found \<Rightarrow>
                                   (Returns \<lparr>filesProcessed = totalFiles result,
                                             recordsMerged = totalRecords result,
                                             outputFile = path,
                                             columnCount = length orderedColumns,
                                             warningCount = length warned,
                                             duplicateResults = found\<rparr>,
                                    [call])))))))"

section \<open>Auxiliary notions for the claims\<close>

text \<open>
  The values \<open>checkForDuplicates\<close> passes to \<open>note_value\<close> while it scans a column from
  the given index on, each with its row number: the blank ones are left out.
\<close>

fun counted :: "MergedRecord list \<Rightarrow> nat \<Rightarrow> string \<Rightarrow> (string \<times> nat) list" where
  "counted [] index col = []"
| "counted (r # rs) index col =
     (case or_empty (get r col) of
        Inherited k \<Rightarrow> counted rs (index + 1) col
      | Str v \<Rightarrow>
          (if trim v = [] then counted rs (index + 1) col
           else (v, index + 2) # counted rs (index + 1) col))"

text \<open>Whether every value read in a column is a string.\<close>

definition isStr :: "jsval \<Rightarrow> bool" where
  "isStr v = (case v of Str s \<Rightarrow> True | Inherited k \<Rightarrow> False)"

definition readable :: "MergedRecord list \<Rightarrow> string \<Rightarrow> bool" where
  "readable rs col = list_all (\<lambda>r. isStr (or_empty (get r col))) rs"

text \<open>The update \<open>note_value\<close> makes to the entry of a value already in the map.\<close>

definition bump :: "string \<Rightarrow> nat \<Rightarrow> string \<times> nat \<times> nat list \<Rightarrow> string \<times> nat \<times> nat list" where
  "bump v row e = (if fst e = v then (fst e, fst (snd e) + 1, snd (snd e) @ [row]) else e)"

text \<open>The state of the map after the pairs \<open>ps\<close> have been noted.\<close>

definition tallied :: "valueMap \<Rightarrow> (string \<times> nat) list \<Rightarrow> bool" where
  "tallied m ps =
     (distinct (map fst m) \<and> fst ` set m = fst ` set ps \<and>
      (\<forall>e \<in> set m. snd (snd e) = map snd (filter (\<lambda>p. fst p = fst e) ps) \<and>
                    fst (snd e) = length (snd (snd e))) \<and>
      sorted_wrt (\<lambda>a b. hd (snd (snd a)) < hd (snd (snd b))) m)"

text \<open>An entry of the map as the object \<open>checkForDuplicates\<close> reports.\<close>

definition entry :: "string \<times> nat \<times> nat list \<Rightarrow> DuplicateValue" where
  "entry e = \<lparr>dup_value = fst e, dup_count = fst (snd e), rowNumbers = snd (snd e)\<rparr>"

text \<open>
  Processing a file fails when its name has no provenance, or reading its headers or its
  records does not come back with a result.
\<close>

definition fileFails :: "World \<Rightarrow> string \<Rightarrow> bool" where
  "fileFails w filePath =
     (isl (extractEnterprise w (basename filePath)) \<or>
      (case getCsvHeaders w filePath of Returns headers \<Rightarrow> False | _ \<Rightarrow> True) \<or>
      (case readCsvFile w filePath of Returns rows \<Rightarrow> False | _ \<Rightarrow> True))"

text \<open>
  Opening a file settles when the read stream emits no \<open>error\<close> and the parser emits
  \<open>headers\<close> or an \<open>error\<close> of its own.
\<close>

definition settles :: "World \<Rightarrow> string \<Rightarrow> bool" where
  "settles w filePath =
     (case openCsv w filePath of
        ReadError e \<Rightarrow> False
      | Parsed None rows None \<Rightarrow> False
      | Parsed None rows (Some e) \<Rightarrow> True
      | Parsed (Some headers) rows err \<Rightarrow> True)"

text \<open>The warnings \<open>mergeCsvFiles\<close> pushes for a file.\<close>

definition fileWarnings :: "World \<Rightarrow> ColumnConfig \<Rightarrow> string \<Rightarrow> string list" where
  "fileWarnings w cfg filePath =
     (case getCsvHeaders w filePath of
        Returns headers \<Rightarrow> warnings (fst (validateAndFilterColumns filePath headers cfg))
      | _ \<Rightarrow> [])"

text \<open>Whether the headers of a file hold a column the configuration does not know.\<close>

definition hasUnexpected :: "World \<Rightarrow> ColumnConfig \<Rightarrow> string \<Rightarrow> bool" where
  "hasUnexpected w cfg filePath =
     (case getCsvHeaders w filePath of
        Returns headers \<Rightarrow> unexpectedColumns headers cfg \<noteq> []
      | _ \<Rightarrow> False)"

subsection \<open>Concrete runs\<close>

definition config_AB :: ColumnConfig where
  "config_AB = \<lparr>columns = [''Org_Name'', ''Repo_Name''], columnsToRemove = Some [''Full_URL''],
                duplicateCheckColumns = Some [''Repo_Name'']\<rparr>"

text \<open>
  Three CSV files with the same two columns and one row each; the file names are ASCII.
\<close>

definition world_three :: World where
  "world_three =
     \<lparr>toLowerCase = lowerASCII,
      existsSync = (\<lambda>p. True),
      readdirSync = (\<lambda>d. Inr [''ghec_orgA_data.csv'', ''ghes_orgB_data.csv'', ''notes.txt'',
                                ''ghec_orgC_data.csv'']),
      openCsv = (\<lambda>p. Parsed (Some [''Org_Name'', ''Repo_Name''])
                         [ [(''Org_Name'', ''o''), (''Repo_Name'', ''r'')] ] None),
      readConfig = (\<lambda>p. Inr config_AB),
      generateTimestamp = ''20250709_143045'',
      writeError = None\<rparr>"

text \<open>The second entry is a directory: the read stream emits \<open>error\<close>.\<close>

definition world_unreadable :: World where
  "world_unreadable =
     world_three\<lparr>openCsv := (\<lambda>p. if p = ''in/ghes_orgB_data.csv''
                                   then ReadError ''EISDIR: illegal operation on a directory, read''
                                   else openCsv world_three p)\<rparr>"

text \<open>The second file is empty: the parser emits no \<open>headers\<close>, only \<open>end\<close>.\<close>

definition world_headerless :: World where
  "world_headerless =
     world_three\<lparr>openCsv := (\<lambda>p. if p = ''in/ghes_orgB_data.csv''
                                   then Parsed None [] None
                                   else openCsv world_three p)\<rparr>"

text \<open>The parser emits \<open>error\<close> for the second file.\<close>

definition world_malformed :: World where
  "world_malformed =
     world_three\<lparr>openCsv := (\<lambda>p. if p = ''in/ghes_orgB_data.csv''
                                   then Parsed (Some [''Org_Name'', ''Repo_Name'']) []
                                          (Some ''Row length does not match headers'')
                                   else openCsv world_three p)\<rparr>"

text \<open>A directory without any CSV file.\<close>

definition world_empty :: World where
  "world_empty = world_three\<lparr>readdirSync := (\<lambda>d. Inr [''notes.txt'', ''data.csv.bak''])\<rparr>"

text \<open>
  Two readable files: the first has an unexpected column and a removed column, the
  second only a removed column.
\<close>

definition world_warned :: World where
  "world_warned =
     world_three
       \<lparr>readdirSync := (\<lambda>d. Inr [''ghec_orgA_data.csv'', ''GHES_orgB_data.CSV'']),
        openCsv := (\<lambda>p. if p = ''in/ghec_orgA_data.csv''
                         then Parsed (Some [''Org_Name'', ''Extra_Col'', ''Full_URL'', ''Repo_Name''])
                                [ [(''Org_Name'', ''a''), (''Extra_Col'', ''x''),
                                   (''Full_URL'', ''u''), (''Repo_Name'', ''r'')] ] None
                         else Parsed (Some [''Org_Name'', ''Repo_Name'', ''Full_URL''])
                                [ [(''Org_Name'', ''b''), (''Repo_Name'', ''r''),
                                   (''Full_URL'', ''v'')] ] None)\<rparr>"

text \<open>One file whose records carry a column named \<open>Enterprise\<close> of their own.\<close>

definition world_own_enterprise :: World where
  "world_own_enterprise =
     world_three
       \<lparr>readdirSync := (\<lambda>d. Inr [''ghec_orgA_data.csv'']),
        openCsv := (\<lambda>p. Parsed (Some [''Enterprise'', ''Org_Name'', ''Repo_Name''])
                           [ [(''Enterprise'', ''SOURCE''), (''Org_Name'', ''a''),
                              (''Repo_Name'', ''r'')] ] None)\<rparr>"

text \<open>One file whose name starts with \<open>constructor_\<close>.\<close>

definition world_constructor :: World where
  "world_constructor =
     world_three\<lparr>readdirSync := (\<lambda>d. Inr [''constructor_org_data.csv''])\<rparr>"

text \<open>A configuration with a column named like a member of \<open>Object.prototype\<close>.\<close>

definition config_constructor :: ColumnConfig where
  "config_constructor =
     \<lparr>columns = [''Org_Name'', ''constructor''], columnsToRemove = None,
      duplicateCheckColumns = None\<rparr>"

text \<open>A configuration with a column named by an array index.\<close>

definition config_year :: ColumnConfig where
  "config_year = \<lparr>columns = [''b'', ''2024''], columnsToRemove = None,
                  duplicateCheckColumns = None\<rparr>"

text \<open>A configuration with the column \<open>__proto__\<close>.\<close>

definition config_proto :: ColumnConfig where
  "config_proto = \<lparr>columns = [''Org_Name'', ''__proto__''], columnsToRemove = None,
                   duplicateCheckColumns = None\<rparr>"

text \<open>A configuration that checks a column named like a member of \<open>Object.prototype\<close>.\<close>

definition config_toString :: ColumnConfig where
  "config_toString = \<lparr>columns = [''Org_Name'', ''Repo_Name''], columnsToRemove = None,
                      duplicateCheckColumns = Some [''toString'']\<rparr>"

definition world_toString :: World where
  "world_toString = world_three\<lparr>readConfig := (\<lambda>p. Inr config_toString)\<rparr>"

text \<open>The map \<open>checkForDuplicates\<close> has built when the scan of a column is over.\<close>

definition scanned :: "MergedRecord list \<Rightarrow> string \<Rightarrow> valueMap" where
  "scanned rs col = fold (\<lambda>(v, row) m. note_value m v row) (counted rs 0 col) []"

section \<open>Properties of records\<close>

lemma put_fresh: "k \<notin> fst ` set acc \<Longrightarrow> put acc k v = acc @ [(k, v)]"
  by (induction acc) auto

lemma map_of_put: "map_of (put acc k v) = (map_of acc)(k \<mapsto> v)"
  by (induction acc) (auto simp: fun_eq_iff)

lemma filterRecord_fold:
  "distinct (map fst r) \<Longrightarrow> fst ` set r \<inter> fst ` set acc = {} \<Longrightarrow>
   fold (\<lambda>(key, val) filteredRecord.
           if key \<notin> X then put filteredRecord key val else filteredRecord) r acc
   = acc @ filter (\<lambda>(k, v). k \<notin> X) r"
proof (induction r arbitrary: acc)
  case Nil
  then show ?case by simp
next
  case (Cons p r)
  obtain k v where p: "p = (k, v)" by (cases p)
  from Cons.prems p have fresh: "k \<notin> fst ` set acc" by auto
  from Cons.prems p have d: "distinct (map fst r)" and kr: "k \<notin> fst ` set r" by auto
  show ?case
  proof (cases "k \<in> X")
    case True
    with Cons.IH [of acc] Cons.prems d p show ?thesis by auto
  next
    case False
    have "fst ` set r \<inter> fst ` set (acc @ [(k, v)]) = {}"
      using Cons.prems p kr by auto
    with Cons.IH [of "acc @ [(k, v)]"] d False p fresh show ?thesis
      by (simp add: put_fresh)
  qed
qed

lemma filterRecord_eq:
  "wf_record r \<Longrightarrow> filterRecord r X = filter (\<lambda>(k, v). k \<notin> X) r"
  unfolding filterRecord_def wf_record_def
  using filterRecord_fold [of r "[]" X] by simp

lemma or_empty_Some: "or_empty (Some v) = v"
  by (simp add: or_empty_def)

lemma or_empty_None: "or_empty None = Str []"
  by (simp add: or_empty_def)

lemma or_empty_idem: "or_empty (Some (or_empty x)) = or_empty x"
  by (simp add: or_empty_def split: option.splits)

lemma fst_update_own: "map fst (update_own r k v) = map fst r"
  by (induction r) auto

lemma keys_update_own: "fst ` set (update_own r k v) = fst ` set r"
proof -
  have "set (map fst (update_own r k v)) = set (map fst r)"
    by (simp only: fst_update_own)
  then show ?thesis by simp
qed

lemma map_of_update_own_at:
  "map_of (update_own r k v) x
   = (if x = k \<and> map_of r k \<noteq> None then Some v else map_of r x)"
  by (induction r) auto

lemma map_of_update_own:
  assumes "k \<in> fst ` set r"
  shows "map_of (update_own r k v) = (map_of r)(k \<mapsto> v)"
proof -
  from assms have "map_of r k \<noteq> None" by (simp add: map_of_eq_None_iff)
  then show ?thesis by (simp add: fun_eq_iff map_of_update_own_at)
qed

lemma keys_insertIndex: "fst ` set (insertIndex r k v) = insert k (fst ` set r)"
proof (induction r)
  case Nil
  show ?case by simp
next
  case (Cons p r)
  obtain a b where p: "p = (a, b)" by (cases p)
  show ?case
  proof (cases "isArrayIndex a \<and> numeral_of a < numeral_of k")
    case True
    with p have "insertIndex (p # r) k v = (a, b) # insertIndex r k v" by simp
    then have "fst ` set (insertIndex (p # r) k v) = insert a (fst ` set (insertIndex r k v))"
      by simp
    with Cons.IH p show ?thesis by auto
  next
    case False
    then have "insertIndex ((a, b) # r) k v = (k, v) # (a, b) # r" by auto
    with p show ?thesis by simp
  qed
qed

lemma map_of_insertIndex_at:
  "map_of r k = None \<Longrightarrow>
   map_of (insertIndex r k v) x = (if x = k then Some v else map_of r x)"
  by (induction r) (auto split: if_splits)

lemma map_of_insertIndex:
  assumes "k \<notin> fst ` set r"
  shows "map_of (insertIndex r k v) = (map_of r)(k \<mapsto> v)"
proof -
  from assms have "map_of r k = None" by (simp add: map_of_eq_None_iff)
  then show ?thesis by (simp add: fun_eq_iff map_of_insertIndex_at)
qed

lemma map_of_append_fresh:
  assumes "k \<notin> fst ` set r"
  shows "map_of (r @ [(k, v)]) = (map_of r)(k \<mapsto> v)"
proof -
  from assms have "map_of r k = None" by (simp add: map_of_eq_None_iff)
  then show ?thesis
    by (auto simp: fun_eq_iff map_add_def split: option.splits)
qed

lemma keys_define_own: "fst ` set (define_own r k v) = insert k (fst ` set r)"
  by (auto simp: define_own_def keys_insertIndex keys_update_own)

lemma map_of_define_own: "map_of (define_own r k v) = (map_of r)(k \<mapsto> v)"
proof (cases "k \<in> fst ` set r")
  case True
  then show ?thesis by (simp add: define_own_def map_of_update_own)
next
  case False
  show ?thesis
  proof (cases "isArrayIndex k")
    case True
    with False show ?thesis by (simp add: define_own_def map_of_insertIndex)
  next
    case index: False
    from False have "map_of (r @ [(k, v)]) = (map_of r)(k \<mapsto> v)"
      by (rule map_of_append_fresh)
    with False index show ?thesis by (simp only: define_own_def if_False)
  qed
qed

lemma assign_proto: "''__proto__'' \<notin> fst ` set r \<Longrightarrow> assign r ''__proto__'' v = r"
  by (simp add: assign_def)

lemma keys_assign:
  "k \<noteq> ''__proto__'' \<Longrightarrow> fst ` set (assign r k v) = insert k (fst ` set r)"
  by (auto simp: assign_def keys_define_own keys_update_own)

lemma map_of_assign:
  "k \<noteq> ''__proto__'' \<Longrightarrow> map_of (assign r k v) = (map_of r)(k \<mapsto> v)"
  by (simp add: assign_def map_of_update_own map_of_define_own)

lemma assign_no_proto:
  "''__proto__'' \<notin> fst ` set r \<Longrightarrow> ''__proto__'' \<notin> fst ` set (assign r k v)"
  by (cases "k = ''__proto__''") (simp_all add: assign_proto keys_assign)

text \<open>The record \<open>orderRecords\<close> builds never gets an own property \<open>__proto__\<close>.\<close>

lemma build_no_proto:
  "''__proto__'' \<notin> fst ` set acc \<Longrightarrow>
   ''__proto__'' \<notin> fst ` set (fold (\<lambda>col orderedRecord. assign orderedRecord col (g col)) cs acc)"
  by (induction cs arbitrary: acc) (simp_all add: assign_no_proto)

lemma map_of_build:
  "''__proto__'' \<notin> fst ` set acc \<Longrightarrow>
   map_of (fold (\<lambda>col orderedRecord. assign orderedRecord col (g col)) cs acc)
   = (\<lambda>k. if k \<in> set cs \<and> k \<noteq> ''__proto__'' then Some (g k) else map_of acc k)"
proof (induction cs arbitrary: acc)
  case Nil
  show ?case by simp
next
  case (Cons c cs)
  show ?case
  proof (cases "c = ''__proto__''")
    case True
    with Cons.prems Cons.IH [OF Cons.prems] show ?thesis
      by (auto simp: assign_proto fun_eq_iff)
  next
    case False
    from Cons.prems have "''__proto__'' \<notin> fst ` set (assign acc c (g c))"
      by (rule assign_no_proto)
    from Cons.IH [OF this] False show ?thesis
      by (auto simp: map_of_assign fun_eq_iff)
  qed
qed

lemma build_cong:
  "''__proto__'' \<notin> fst ` set acc \<Longrightarrow>
   (\<And>c. c \<in> set cs \<Longrightarrow> c \<noteq> ''__proto__'' \<Longrightarrow> g c = h c) \<Longrightarrow>
   fold (\<lambda>col orderedRecord. assign orderedRecord col (g col)) cs acc
   = fold (\<lambda>col orderedRecord. assign orderedRecord col (h col)) cs acc"
proof (induction cs arbitrary: acc)
  case Nil
  show ?case by simp
next
  case (Cons c cs)
  show ?case
  proof (cases "c = ''__proto__''")
    case True
    with Cons.prems(1) have "assign acc c (g c) = acc" "assign acc c (h c) = acc"
      by (simp_all add: assign_proto)
    with Cons.IH [OF Cons.prems(1)] Cons.prems(2) show ?thesis by simp
  next
    case False
    with Cons.prems(2) have same: "g c = h c" by simp
    from Cons.prems(1) have "''__proto__'' \<notin> fst ` set (assign acc c (h c))"
      by (rule assign_no_proto)
    from Cons.IH [OF this] Cons.prems(2) same show ?thesis by simp
  qed
qed

lemma get_own: "map_of r k = Some v \<Longrightarrow> get r k = Some v"
  by (simp add: get_def)

lemma orderRecord_idem:
  "orderRecord cs (orderRecord cs r) = orderRecord cs r"
proof -
  have start: "''__proto__'' \<notin> fst ` set [(''Enterprise'', Str [])]" by simp
  have same: "or_empty (get (orderRecord cs r) c) = or_empty (get r c)"
    if "c \<in> set cs" "c \<noteq> ''__proto__''" for c
  proof -
    from that have "map_of (orderRecord cs r) c = Some (or_empty (get r c))"
      unfolding orderRecord_def by (simp add: map_of_build [OF start])
    then have "get (orderRecord cs r) c = Some (or_empty (get r c))" by (rule get_own)
    then show ?thesis by (simp add: or_empty_idem)
  qed
  have "fold (\<lambda>col orderedRecord.
                assign orderedRecord col (or_empty (get (orderRecord cs r) col)))
          cs [(''Enterprise'', Str [])]
        = fold (\<lambda>col orderedRecord. assign orderedRecord col (or_empty (get r col)))
          cs [(''Enterprise'', Str [])]"
    by (rule build_cong [OF start]) (rule same)
  then show ?thesis
    unfolding orderRecord_def [of cs "orderRecord cs r"] by (simp add: orderRecord_def)
qed

text \<open>
  Columns that are neither array indices nor names of members of \<open>Object.prototype\<close>:
  the ordered record has exactly \<open>Enterprise\<close> and the columns, in configured order.
\<close>

lemma assign_fresh_plain:
  "k \<notin> fst ` set acc \<Longrightarrow> k \<noteq> ''__proto__'' \<Longrightarrow> \<not> isArrayIndex k \<Longrightarrow>
   assign acc k v = acc @ [(k, v)]"
  by (simp add: assign_def define_own_def)

lemma build_plain:
  "distinct cs \<Longrightarrow> set cs \<inter> fst ` set acc = {} \<Longrightarrow>
   (\<And>c. c \<in> set cs \<Longrightarrow> c \<noteq> ''__proto__'' \<and> \<not> isArrayIndex c) \<Longrightarrow>
   fold (\<lambda>col orderedRecord. assign orderedRecord col (g col)) cs acc
   = acc @ map (\<lambda>c. (c, g c)) cs"
proof (induction cs arbitrary: acc)
  case Nil
  then show ?case by simp
next
  case (Cons c cs)
  from Cons.prems have fresh: "c \<notin> fst ` set acc" by auto
  from Cons.prems(3) [of c] have plain: "c \<noteq> ''__proto__''" "\<not> isArrayIndex c" by simp_all
  have step: "assign acc c (g c) = acc @ [(c, g c)]"
    using fresh plain by (rule assign_fresh_plain)
  have "set cs \<inter> fst ` set (acc @ [(c, g c)]) = {}"
    using Cons.prems by auto
  with Cons.IH [of "acc @ [(c, g c)]"] Cons.prems step show ?case
    by simp
qed

lemma orderRecord_plain:
  assumes "distinct cols" and "''Enterprise'' \<notin> set cols"
    and "\<And>c. c \<in> set cols \<Longrightarrow> c \<notin> set protoNames \<and> \<not> isArrayIndex c"
  shows "orderRecord (''Enterprise'' # cols) r
         = map (\<lambda>c. (c, case map_of r c of None \<Rightarrow> Str [] | Some v \<Rightarrow> v)) (''Enterprise'' # cols)"
proof -
  have v: "or_empty (get r c) = (case map_of r c of None \<Rightarrow> Str [] | Some v \<Rightarrow> v)"
    if "c \<notin> set protoNames" for c
    using that by (simp add: or_empty_def get_def split: option.splits)
  have e: "''Enterprise'' \<notin> set protoNames" by (simp add: protoNames_def)
  have first: "assign [(''Enterprise'', Str [])] ''Enterprise'' x = [(''Enterprise'', x)]" for x
    by (simp add: assign_def)
  have plain: "c \<noteq> ''__proto__'' \<and> \<not> isArrayIndex c" if "c \<in> set cols" for c
    using assms(3) [OF that] by (auto simp: protoNames_def)
  have disj: "set cols \<inter> fst ` set [(''Enterprise'', or_empty (get r ''Enterprise''))] = {}"
    using assms(2) by auto
  have "orderRecord (''Enterprise'' # cols) r
        = [(''Enterprise'', or_empty (get r ''Enterprise''))]
          @ map (\<lambda>c. (c, or_empty (get r c))) cols"
    unfolding orderRecord_def
    using build_plain [OF assms(1) disj plain, of "\<lambda>c. or_empty (get r c)"]
    by (simp add: first)
  also have "\<dots> = map (\<lambda>c. (c, case map_of r c of None \<Rightarrow> Str [] | Some v \<Rightarrow> v))
                     (''Enterprise'' # cols)"
    using assms(3) by (simp add: v e)
  finally show ?thesis .
qed

section \<open>Claims on the column reconciler and the output orderer\<close>

text \<open>
  C9. For every record and exclusion set, \<open>filterRecord\<close> returns a new record containing
  exactly the fields of the input whose key is not in the exclusion set, in their original
  relative order and with their original values. A record is an object: its keys are
  pairwise distinct (\<open>wf_record\<close>).
\<close>

theorem filterRecord_keeps:
  assumes "wf_record r"
  shows "filterRecord r toRemove = filter (\<lambda>(key, val). key \<notin> toRemove) r"
  using assms by (rule filterRecord_eq)

theorem filterRecord_keeps_witness:
  "wf_record [(''Org_Name'', ''o''), (''Full_URL'', ''u''), (''Repo_Name'', ''r'')] \<and>
   filterRecord [(''Org_Name'', ''o''), (''Full_URL'', ''u''), (''Repo_Name'', ''r'')] {''Full_URL''}
   = [(''Org_Name'', ''o''), (''Repo_Name'', ''r'')]"
proof -
  have wf: "wf_record [(''Org_Name'', ''o''), (''Full_URL'', ''u''), (''Repo_Name'', ''r'')]"
    by (simp add: wf_record_def)
  show ?thesis
    using wf filterRecord_keeps [OF wf, of "{''Full_URL''}"] by simp
qed

text \<open>
  C3. The claim lets every ordered record have exactly the keys \<open>Enterprise\<close> and the
  configured columns, in configured order, with the empty string for a column the source
  record lacks. Three configurations with unique columns that do not contain
  \<open>Enterprise\<close> show what \<open>orderRecords\<close> does instead. For the absent column
  \<open>constructor\<close> the record holds the function inherited from \<open>Object.prototype\<close>, not the
  empty string. For the columns \<open>b\<close> and \<open>2024\<close> the keys are \<open>2024\<close>, \<open>Enterprise\<close>, \<open>b\<close>.
  For the column \<open>__proto__\<close> the record has two fields, not three. For columns that are
  neither array indices nor names of members of \<open>Object.prototype\<close> the claim holds
  (lemma \<open>orderRecord_plain\<close>).
\<close>

theorem orderRecords_inherited_and_index_columns:
  "distinct (columns config_constructor) \<and> ''Enterprise'' \<notin> set (columns config_constructor) \<and>
   orderRecords [ [(''Org_Name'', Str ''o'')] ] config_constructor
     = [ [(''Enterprise'', Str []), (''Org_Name'', Str ''o''),
          (''constructor'', Inherited ''constructor'')] ] \<and>
   distinct (columns config_year) \<and> ''Enterprise'' \<notin> set (columns config_year) \<and>
   orderRecords [ [(''b'', Str ''1'')] ] config_year
     = [ [(''2024'', Str []), (''Enterprise'', Str []), (''b'', Str ''1'')] ] \<and>
   distinct (columns config_proto) \<and> ''Enterprise'' \<notin> set (columns config_proto) \<and>
   orderRecords [ [(''Org_Name'', Str ''o'')] ] config_proto
     = [ [(''Enterprise'', Str []), (''Org_Name'', Str ''o'')] ]"
  by code_simp

text \<open>
  C8. \<open>orderRecords\<close> is idempotent: for every record list and every configuration,
  applying it to its own output gives the same result as applying it once.
\<close>

theorem orderRecords_idempotent:
  "orderRecords (orderRecords rs cfg) cfg = orderRecords rs cfg"
  by (simp add: orderRecords_def orderRecord_idem)

theorem orderRecords_idempotent_witness:
  "orderRecords (orderRecords [ [(''Repo_Name'', Str ''r''), (''Extra_Col'', Str ''e'')] ]
       \<lparr>columns = [''Org_Name'', ''Repo_Name'', ''Org_Name''], columnsToRemove = None,
        duplicateCheckColumns = None\<rparr>)
     \<lparr>columns = [''Org_Name'', ''Repo_Name'', ''Org_Name''], columnsToRemove = None,
        duplicateCheckColumns = None\<rparr>
   = [ [(''Enterprise'', Str ''''), (''Org_Name'', Str ''''), (''Repo_Name'', Str ''r'')] ]"
proof -
  have ev: "orderRecords [ [(''Repo_Name'', Str ''r''), (''Extra_Col'', Str ''e'')] ]
       \<lparr>columns = [''Org_Name'', ''Repo_Name'', ''Org_Name''], columnsToRemove = None,
        duplicateCheckColumns = None\<rparr>
     = [ [(''Enterprise'', Str ''''), (''Org_Name'', Str ''''), (''Repo_Name'', Str ''r'')] ]"
    by code_simp
  show ?thesis
    using orderRecords_idempotent [of "[ [(''Repo_Name'', Str ''r''), (''Extra_Col'', Str ''e'')] ]"
       "\<lparr>columns = [''Org_Name'', ''Repo_Name'', ''Org_Name''], columnsToRemove = None,
          duplicateCheckColumns = None\<rparr>"] ev
    by simp
qed

section \<open>Properties of utils.ts\<close>

lemma indexOf_None: "indexOf s c = None \<longleftrightarrow> c \<notin> set s"
  by (induction s) (auto split: option.splits)

lemma indexOf_Some: "indexOf s c = Some i \<Longrightarrow> take i s = takeWhile (\<lambda>x. x \<noteq> c) s"
  by (induction s arbitrary: i) (auto split: option.splits if_splits)

lemma indexOf_member: "c \<in> set s \<Longrightarrow> \<exists>i. indexOf s c = Some i"
  using indexOf_None [of s c] by (cases "indexOf s c") auto

lemma mapping_tag_nonempty: "map_of ENTERPRISE_MAPPING k = Some tag \<Longrightarrow> tag \<noteq> Str []"
  by (auto simp: ENTERPRISE_MAPPING_def split: if_splits)

lemma mapping_keys_not_inherited: "k \<in> fst ` set ENTERPRISE_MAPPING \<Longrightarrow> k \<notin> set protoNames"
  by (auto simp: ENTERPRISE_MAPPING_def protoNames_def)

text \<open>
  What \<open>extractEnterprise\<close> does, for every lower-casing function of the platform. The
  base is the basename of the file name without \<open>.csv\<close>, the prefix is the lower-cased
  part of the base before its first underscore.
\<close>

lemma extractEnterprise_no_underscore:
  assumes "CHR ''_'' \<notin> set (basename_ext filename ''.csv'')"
  shows "extractEnterprise w filename =
          Inl (''Invalid filename format: '' @ filename @
               ''. Expected format: enterprise_org_data.csv'')"
proof -
  from assms have "indexOf (basename_ext filename ''.csv'') CHR ''_'' = None"
    by (simp add: indexOf_None)
  then show ?thesis by (simp add: extractEnterprise_def)
qed

lemma extractEnterprise_lookup:
  assumes "CHR ''_'' \<in> set (basename_ext filename ''.csv'')"
  shows "extractEnterprise w filename =
          (case get ENTERPRISE_MAPPING
                  (toLowerCase w (takeWhile (\<lambda>c. c \<noteq> CHR ''_'') (basename_ext filename ''.csv''))) of
             None \<Rightarrow>
               Inl (''Unknown enterprise prefix: '' @
                    toLowerCase w (takeWhile (\<lambda>c. c \<noteq> CHR ''_'') (basename_ext filename ''.csv'')) @
                    '' in file '' @ filename)
           | Some enterprise \<Rightarrow> Inr enterprise)"
proof -
  from assms obtain i where i: "indexOf (basename_ext filename ''.csv'') CHR ''_'' = Some i"
    using indexOf_member by blast
  have nonempty: "v \<noteq> Str []" if "get ENTERPRISE_MAPPING k = Some v" for k v
    using that by (auto simp: get_def dest: mapping_tag_nonempty split: option.splits if_splits)
  show ?thesis
    using i indexOf_Some [OF i] nonempty
    by (auto simp: extractEnterprise_def substring_def Let_def split: option.splits)
qed

lemma extractEnterprise_known:
  assumes "CHR ''_'' \<in> set (basename_ext filename ''.csv'')"
    and "map_of ENTERPRISE_MAPPING
           (toLowerCase w (takeWhile (\<lambda>c. c \<noteq> CHR ''_'') (basename_ext filename ''.csv'')))
         = Some tag"
  shows "extractEnterprise w filename = Inr tag"
  using assms(2) by (simp add: extractEnterprise_lookup [OF assms(1)] get_def)

lemma extractEnterprise_unknown:
  assumes "CHR ''_'' \<in> set (basename_ext filename ''.csv'')"
    and "toLowerCase w (takeWhile (\<lambda>c. c \<noteq> CHR ''_'') (basename_ext filename ''.csv''))
           \<notin> fst ` set ENTERPRISE_MAPPING"
    and "toLowerCase w (takeWhile (\<lambda>c. c \<noteq> CHR ''_'') (basename_ext filename ''.csv''))
           \<notin> set protoNames"
  shows "extractEnterprise w filename =
           Inl (''Unknown enterprise prefix: '' @
                toLowerCase w (takeWhile (\<lambda>c. c \<noteq> CHR ''_'') (basename_ext filename ''.csv'')) @
                '' in file '' @ filename)"
proof -
  from assms(2) have "map_of ENTERPRISE_MAPPING
      (toLowerCase w (takeWhile (\<lambda>c. c \<noteq> CHR ''_'') (basename_ext filename ''.csv''))) = None"
    by (simp add: map_of_eq_None_iff)
  with assms(3) show ?thesis
    by (simp add: extractEnterprise_lookup [OF assms(1)] get_def)
qed

lemma extractEnterprise_inherited:
  assumes "CHR ''_'' \<in> set (basename_ext filename ''.csv'')"
    and "toLowerCase w (takeWhile (\<lambda>c. c \<noteq> CHR ''_'') (basename_ext filename ''.csv''))
           \<in> set protoNames"
  shows "extractEnterprise w filename =
           Inr (Inherited
                  (toLowerCase w (takeWhile (\<lambda>c. c \<noteq> CHR ''_'') (basename_ext filename ''.csv''))))"
proof -
  from assms(2) mapping_keys_not_inherited
  have "toLowerCase w (takeWhile (\<lambda>c. c \<noteq> CHR ''_'') (basename_ext filename ''.csv''))
           \<notin> fst ` set ENTERPRISE_MAPPING"
    by blast
  then have "map_of ENTERPRISE_MAPPING
      (toLowerCase w (takeWhile (\<lambda>c. c \<noteq> CHR ''_'') (basename_ext filename ''.csv''))) = None"
    by (simp add: map_of_eq_None_iff)
  with assms(2) show ?thesis
    by (simp add: extractEnterprise_lookup [OF assms(1)] get_def)
qed

section \<open>Claim on the provenance resolver\<close>

text \<open>
  C4. The claim lets \<open>extractEnterprise\<close> fail with the unknown-prefix error whenever the
  lower-cased prefix is not a key of the mapping. For the file name
  \<open>constructor_org_data.csv\<close> the prefix \<open>constructor\<close> is not a key of the mapping, yet
  \<open>extractEnterprise\<close> returns: the lookup in the plain object finds the member inherited
  from \<open>Object.prototype\<close>, which is truthy. The run goes on and hands the writer a record
  whose \<open>Enterprise\<close> field is that function. The other parts of the claim hold (lemmas
  \<open>extractEnterprise_known\<close>, \<open>extractEnterprise_no_underscore\<close>,
  \<open>extractEnterprise_unknown\<close>).
\<close>

theorem extractEnterprise_constructor_prefix:
  "basename_ext ''constructor_org_data.csv'' ''.csv'' = ''constructor_org_data'' \<and>
   ''constructor'' \<notin> fst ` set ENTERPRISE_MAPPING \<and>
   extractEnterprise world_three ''constructor_org_data.csv'' = Inr (Inherited ''constructor'') \<and>
   processCsvMerge world_constructor ''in'' ''out'' ''merged_data'' ''column-config.json''
     = (Returns \<lparr>filesProcessed = 1, recordsMerged = 1,
                 outputFile = ''out/merged_data_20250709_143045.csv'', columnCount = 3,
                 warningCount = 0,
                 duplicateResults = [\<lparr>column = ''Repo_Name'', duplicateValues = []\<rparr>]\<rparr>,
        [\<lparr>writtenRecords =
            [ [(''Enterprise'', Inherited ''constructor''), (''Org_Name'', Str ''o''),
               (''Repo_Name'', Str ''r'')] ],
          outputPath = ''out/merged_data_20250709_143045.csv'',
          writtenColumns = [''Enterprise'', ''Org_Name'', ''Repo_Name'']\<rparr>])"
  by code_simp

section \<open>Properties of the duplicate detector\<close>

lemma bump_absent: "v \<notin> fst ` set m \<Longrightarrow> map (bump v row) m = m"
  by (induction m) (auto simp: bump_def)

lemma note_value_old:
  "distinct (map fst m) \<Longrightarrow> v \<in> fst ` set m \<Longrightarrow> note_value m v row = map (bump v row) m"
proof (induction m)
  case Nil
  then show ?case by simp
next
  case (Cons e m)
  obtain k c rows where e: "e = (k, c, rows)" by (cases e)
  show ?case
  proof (cases "k = v")
    case True
    with e Cons.prems have "v \<notin> fst ` set m" by auto
    with True e show ?thesis by (simp add: bump_absent) (simp add: bump_def)
  next
    case False
    with e Cons show ?thesis by (auto simp: bump_def)
  qed
qed

lemma note_value_new:
  "v \<notin> fst ` set m \<Longrightarrow> note_value m v row = m @ [(v, 1, [row])]"
  by (induction m) auto

lemma readable_Cons:
  "readable (r # rs) col \<longleftrightarrow> isStr (or_empty (get r col)) \<and> readable rs col"
  by (simp add: readable_def)

lemma forEachRecord_fold:
  "forEachRecord rs index col m
   = (if readable rs col
      then Inr (fold (\<lambda>(v, row) m. note_value m v row) (counted rs index col) m)
      else Inl ''value.trim is not a function'')"
proof (induction rs arbitrary: index m)
  case Nil
  show ?case by (simp add: readable_def)
next
  case (Cons r rs)
  show ?case
  proof (cases "or_empty (get r col)")
    case (Str v)
    then show ?thesis
      using Cons.IH by (simp add: readable_Cons isStr_def)
  next
    case (Inherited k)
    then show ?thesis by (simp add: readable_Cons isStr_def)
  qed
qed

lemma forEachRecord_scanned:
  "forEachRecord rs 0 col [] = (if readable rs col then Inr (scanned rs col)
                                else Inl ''value.trim is not a function'')"
  by (simp add: forEachRecord_fold scanned_def)

lemma filter_key_nonempty: "k \<in> fst ` set ps \<Longrightarrow> filter (\<lambda>p. fst p = k) ps \<noteq> []"
  by (induction ps) auto

lemma filter_key_empty: "k \<notin> fst ` set ps \<Longrightarrow> filter (\<lambda>p. fst p = k) ps = []"
  by (induction ps) auto

lemma tallied_step:
  assumes inv: "tallied m ps" and inc: "\<forall>x \<in> snd ` set ps. x < row"
  shows "tallied (note_value m v row) (ps @ [(v, row)])"
proof (cases "v \<in> fst ` set m")
  case True
  from inv have d: "distinct (map fst m)" by (simp add: tallied_def)
  have m': "note_value m v row = map (bump v row) m"
    using d True by (rule note_value_old)
  have keys: "map fst (map (bump v row) m) = map fst m"
    by (induction m) (auto simp: bump_def)
  have nonempty: "snd (snd e) \<noteq> []" if "e \<in> set m" for e
  proof -
    from that inv have "fst e \<in> fst ` set ps" by (auto simp: tallied_def)
    then have "filter (\<lambda>p. fst p = fst e) ps \<noteq> []"
      by (rule filter_key_nonempty)
    with that inv show ?thesis by (auto simp: tallied_def)
  qed
  have hd_same: "hd (snd (snd (bump v row e))) = hd (snd (snd e))" if "e \<in> set m" for e
    using nonempty [OF that] by (simp add: bump_def)
  have rows: "snd (snd e') = map snd (filter (\<lambda>p. fst p = fst e') (ps @ [(v, row)])) \<and>
              fst (snd e') = length (snd (snd e'))"
    if "e' \<in> set (map (bump v row) m)" for e'
  proof -
    from that obtain e where e: "e \<in> set m" "e' = bump v row e" by auto
    with inv have "snd (snd e) = map snd (filter (\<lambda>p. fst p = fst e) ps)"
      "fst (snd e) = length (snd (snd e))" by (auto simp: tallied_def)
    with e show ?thesis by (auto simp: bump_def)
  qed
  have sorted: "sorted_wrt (\<lambda>a b. hd (snd (snd a)) < hd (snd (snd b))) (map (bump v row) m)"
  proof -
    from inv have s: "sorted_wrt (\<lambda>a b. hd (snd (snd a)) < hd (snd (snd b))) m"
      by (simp add: tallied_def)
    have "sorted_wrt (\<lambda>a b. hd (snd (snd (bump v row a))) < hd (snd (snd (bump v row b)))) m"
      by (rule sorted_wrt_mono_rel [OF _ s]) (simp add: hd_same)
    then show ?thesis by (simp add: sorted_wrt_map)
  qed
  have dom: "fst ` set (map (bump v row) m) = fst ` set (ps @ [(v, row)])"
  proof -
    have "fst (bump v row e) = fst e" for e by (simp add: bump_def)
    then have "fst ` set (map (bump v row) m) = fst ` set m" by (simp add: image_image)
    then show ?thesis using inv True by (auto simp: tallied_def)
  qed
  have d': "distinct (map fst (map (bump v row) m))"
    unfolding keys by (rule d)
  show ?thesis
    unfolding m' tallied_def using d' dom rows sorted by blast
next
  case False
  have m': "note_value m v row = m @ [(v, 1, [row])]"
    using False by (rule note_value_new)
  from inv False have fresh: "v \<notin> fst ` set ps" by (simp add: tallied_def)
  then have none: "filter (\<lambda>p. fst p = v) ps = []"
    by (rule filter_key_empty)
  have less: "hd (snd (snd e)) < row" if "e \<in> set m" for e
  proof -
    from that inv have k: "fst e \<in> fst ` set ps" by (auto simp: tallied_def)
    then have ne: "filter (\<lambda>p. fst p = fst e) ps \<noteq> []"
      by (rule filter_key_nonempty)
    from that inv have r: "snd (snd e) = map snd (filter (\<lambda>p. fst p = fst e) ps)"
      by (auto simp: tallied_def)
    from ne r have "snd (snd e) \<noteq> []" by simp
    then have "hd (snd (snd e)) \<in> set (snd (snd e))" by (rule hd_in_set)
    with r have "hd (snd (snd e)) \<in> snd ` set ps" by auto
    with inc show ?thesis by blast
  qed
  have other: "filter (\<lambda>p. fst p = fst e) (ps @ [(v, row)]) = filter (\<lambda>p. fst p = fst e) ps"
    if "e \<in> set m" for e
    using that False by auto
  show ?thesis
    unfolding m' tallied_def using inv False fresh none less other
    by (auto simp: tallied_def sorted_wrt_append)
qed

lemma tallied_fold:
  "sorted_wrt (<) (map snd ps) \<Longrightarrow>
   tallied (fold (\<lambda>(v, row) m. note_value m v row) ps []) ps"
proof (induction ps rule: rev_induct)
  case Nil
  show ?case by (simp add: tallied_def)
next
  case (snoc p ps)
  obtain v row where p: "p = (v, row)" by (cases p)
  from snoc.prems have s: "sorted_wrt (<) (map snd ps)" and inc: "\<forall>x \<in> snd ` set ps. x < row"
    using p by (auto simp: sorted_wrt_append)
  from tallied_step [OF snoc.IH [OF s] inc, of v] p show ?case by simp
qed

lemma counted_Str:
  "or_empty (get r col) = Str v \<Longrightarrow>
   counted (r # rs) index col
   = (if trim v = [] then counted rs (index + 1) col
      else (v, index + 2) # counted rs (index + 1) col)"
  by simp

lemma counted_Inherited:
  "or_empty (get r col) = Inherited k \<Longrightarrow>
   counted (r # rs) index col = counted rs (index + 1) col"
  by simp

lemma counted_lower: "x \<in> snd ` set (counted rs index col) \<Longrightarrow> index + 2 \<le> x"
proof (induction rs arbitrary: index)
  case Nil
  then show ?case by simp
next
  case (Cons r rs)
  have later: "index + 2 \<le> x" if "x \<in> snd ` set (counted rs (index + 1) col)"
    using Cons.IH [OF that] by simp
  show ?case
  proof (cases "or_empty (get r col)")
    case (Str v)
    with Cons.prems have "x = index + 2 \<or> x \<in> snd ` set (counted rs (index + 1) col)"
      by (auto simp: counted_Str simp del: counted.simps split: if_splits)
    with later show ?thesis by auto
  next
    case (Inherited k)
    with Cons.prems later show ?thesis by (simp only: counted_Inherited)
  qed
qed

lemma counted_sorted: "sorted_wrt (<) (map snd (counted rs index col))"
proof (induction rs arbitrary: index)
  case Nil
  show ?case by simp
next
  case (Cons r rs)
  have less: "index + 2 < x" if "x \<in> snd ` set (counted rs (index + 1) col)" for x
    using counted_lower [OF that] by simp
  show ?case
  proof (cases "or_empty (get r col)")
    case (Str v)
    with Cons.IH [of "index + 1"] less show ?thesis
      by (auto simp: counted_Str simp del: counted.simps)
  next
    case (Inherited k)
    with Cons.IH [of "index + 1"] show ?thesis by (simp only: counted_Inherited)
  qed
qed

lemma upt_Suc_shift: "[0..<Suc n] = 0 # map Suc [0..<n]"
  by (simp add: upt_conv_Cons map_Suc_upt del: upt_Suc)

lemma counted_rows:
  "map snd (filter (\<lambda>p. fst p = v) (counted rs index col))
   = (if trim v = [] then []
      else map (\<lambda>i. i + index + 2)
             (filter (\<lambda>i. or_empty (get (rs ! i) col) = Str v) [0..<length rs]))"
proof (induction rs arbitrary: index)
  case Nil
  show ?case by simp
next
  case (Cons r rs)
  have shift: "map (\<lambda>i. i + index + 2)
                 (filter (\<lambda>i. or_empty (get ((r # rs) ! i) col) = Str v) (map Suc [0..<length rs]))
               = map (\<lambda>i. i + (index + 1) + 2)
                 (filter (\<lambda>i. or_empty (get (rs ! i) col) = Str v) [0..<length rs])"
    by (simp add: filter_map comp_def)
  show ?case
  proof (cases "or_empty (get r col)")
    case (Str s)
    then show ?thesis
      using Cons.IH [of "index + 1"] shift
      by (auto simp: counted_Str upt_Suc_shift simp del: upt_Suc counted.simps)
  next
    case (Inherited k)
    then show ?thesis
      using Cons.IH [of "index + 1"] shift
      by (auto simp: counted_Inherited upt_Suc_shift simp del: upt_Suc counted.simps)
  qed
qed

lemma counted_count:
  "length (filter (\<lambda>p. fst p = v) (counted rs index col))
   = (if trim v = [] then 0 else length (filter (\<lambda>r. or_empty (get r col) = Str v) rs))"
proof (induction rs arbitrary: index)
  case Nil
  show ?case by simp
next
  case (Cons r rs)
  show ?case
  proof (cases "or_empty (get r col)")
    case (Str s)
    then show ?thesis
      using Cons.IH [of "index + 1"]
      by (auto simp: counted_Str simp del: counted.simps)
  next
    case (Inherited k)
    then show ?thesis
      using Cons.IH [of "index + 1"]
      by (auto simp: counted_Inherited simp del: counted.simps)
  qed
qed

lemma counted_keys:
  "fst ` set (counted rs index col)
   = {v. trim v \<noteq> [] \<and> Str v \<in> (\<lambda>r. or_empty (get r col)) ` set rs}"
proof (induction rs arbitrary: index)
  case Nil
  show ?case by simp
next
  case (Cons r rs)
  show ?case
  proof (cases "or_empty (get r col)")
    case (Str s)
    then show ?thesis
      using Cons.IH [of "index + 1"]
      by (auto simp: counted_Str simp del: counted.simps)
  next
    case (Inherited k)
    then show ?thesis
      using Cons.IH [of "index + 1"]
      by (auto simp: counted_Inherited simp del: counted.simps)
  qed
qed

lemma checkForDuplicates_member:
  "checkForDuplicates rs cs = Inr results \<Longrightarrow> res \<in> set results \<Longrightarrow>
   columnExists rs (column res) \<and> column res \<in> set cs \<and>
   duplicateValues res = duplicateValuesOf (scanned rs (column res))"
proof (induction cs arbitrary: results)
  case Nil
  then show ?case by simp
next
  case (Cons c cs)
  show ?case
  proof (cases "columnExists rs c")
    case False
    with Cons.prems have "checkForDuplicates rs cs = Inr results" by simp
    from Cons.IH [OF this Cons.prems(2)] show ?thesis by simp
  next
    case True
    with Cons.prems(1) obtain rest
      where r: "readable rs c" and rest: "checkForDuplicates rs cs = Inr rest"
        and results: "results = \<lparr>column = c, duplicateValues = duplicateValuesOf (scanned rs c)\<rparr> # rest"
      by (auto simp: forEachRecord_scanned split: if_splits sum.splits)
    show ?thesis
    proof (cases "res \<in> set rest")
      case True
      from Cons.IH [OF rest True] show ?thesis by simp
    next
      case False
      with Cons.prems(2) results
      have "res = \<lparr>column = c, duplicateValues = duplicateValuesOf (scanned rs c)\<rparr>" by simp
      with \<open>columnExists rs c\<close> show ?thesis by simp
    qed
  qed
qed

lemma checkForDuplicates_columns:
  "checkForDuplicates rs cs = Inr results \<Longrightarrow>
   map column results = filter (columnExists rs) cs"
proof (induction cs arbitrary: results)
  case Nil
  then show ?case by simp
next
  case (Cons c cs)
  show ?case
  proof (cases "columnExists rs c")
    case False
    with Cons.prems have "checkForDuplicates rs cs = Inr results" by simp
    from Cons.IH [OF this] False show ?thesis by simp
  next
    case True
    with Cons.prems(1) obtain rest
      where rest: "checkForDuplicates rs cs = Inr rest"
        and results: "results = \<lparr>column = c, duplicateValues = duplicateValuesOf (scanned rs c)\<rparr> # rest"
      by (auto simp: forEachRecord_scanned split: if_splits sum.splits)
    from Cons.IH [OF rest] True results show ?thesis by simp
  qed
qed

text \<open>
  \<open>checkForDuplicates\<close> returns exactly when every value it reads is a string;
  otherwise \<open>value.trim()\<close> throws.
\<close>

lemma checkForDuplicates_returns:
  "checkForDuplicates rs cs
   = (if \<forall>col \<in> set cs. columnExists rs col \<longrightarrow> readable rs col
      then Inr (map (\<lambda>col. \<lparr>column = col, duplicateValues = duplicateValuesOf (scanned rs col)\<rparr>)
                  (filter (columnExists rs) cs))
      else Inl ''value.trim is not a function'')"
  by (induction cs) (auto simp: forEachRecord_scanned)

lemma duplicateValuesOf_entry:
  "duplicateValuesOf m
   = sort_key (\<lambda>d. - int (dup_count d)) (map entry (filter (\<lambda>e. fst (snd e) > 1) m))"
proof -
  have 1: "(\<lambda>(v, c, rows). \<lparr>dup_value = v, dup_count = c, rowNumbers = rows\<rparr>) = entry"
    by (auto simp: entry_def fun_eq_iff)
  have 2: "(\<lambda>(v, c, rows). c > 1) = (\<lambda>e :: string \<times> nat \<times> nat list. fst (snd e) > 1)"
    by (auto simp: fun_eq_iff)
  show ?thesis unfolding duplicateValuesOf_def 1 2 ..
qed

lemma scan_tallied:
  "tallied (scanned rs col) (counted rs 0 col)"
  unfolding scanned_def by (rule tallied_fold) (rule counted_sorted)

lemma scan_entry_rows:
  assumes "e \<in> set (scanned rs col)"
  shows "trim (fst e) \<noteq> []"
    and "fst (snd e) = length (filter (\<lambda>r. or_empty (get r col) = Str (fst e)) rs)"
    and "snd (snd e) = map (\<lambda>i. i + 2)
           (filter (\<lambda>i. or_empty (get (rs ! i) col) = Str (fst e)) [0..<length rs])"
proof -
  from scan_tallied [of rs col] assms
  have k: "fst e \<in> fst ` set (counted rs 0 col)"
    and r: "snd (snd e) = map snd (filter (\<lambda>p. fst p = fst e) (counted rs 0 col))"
    and c: "fst (snd e) = length (snd (snd e))"
    by (auto simp: tallied_def)
  from k show t: "trim (fst e) \<noteq> []" by (simp add: counted_keys)
  from r t show "snd (snd e) = map (\<lambda>i. i + 2)
           (filter (\<lambda>i. or_empty (get (rs ! i) col) = Str (fst e)) [0..<length rs])"
    by (simp add: counted_rows)
  from c r have "fst (snd e) = length (filter (\<lambda>p. fst p = fst e) (counted rs 0 col))"
    by simp
  with t show "fst (snd e) = length (filter (\<lambda>r. or_empty (get r col) = Str (fst e)) rs)"
    by (simp add: counted_count)
qed

lemma scan_keys:
  "fst ` set (scanned rs col)
   = {v. trim v \<noteq> [] \<and> Str v \<in> (\<lambda>r. or_empty (get r col)) ` set rs}"
  using scan_tallied [of rs col] by (simp add: tallied_def counted_keys)

lemma set_duplicateValuesOf:
  "set (duplicateValuesOf m) = entry ` {e \<in> set m. fst (snd e) > 1}"
  by (simp add: duplicateValuesOf_entry)

lemma distinct_map_sort_key: "distinct (map f (sort_key k xs)) \<longleftrightarrow> distinct (map f xs)"
  by (simp add: distinct_map)

lemma reported_distinct:
  "distinct (map dup_value (duplicateValuesOf (scanned rs col)))"
proof -
  let ?m = "scanned rs col"
  let ?xs = "map entry (filter (\<lambda>e. fst (snd e) > 1) ?m)"
  from scan_tallied [of rs col] have "distinct (map fst ?m)" by (simp add: tallied_def)
  then have "distinct (map fst (filter (\<lambda>e. fst (snd e) > 1) ?m))"
    by (rule distinct_map_filter)
  moreover have "dup_value \<circ> entry = fst"
    by (simp add: entry_def fun_eq_iff)
  ultimately have "distinct (map dup_value ?xs)" by simp
  then show ?thesis
    unfolding duplicateValuesOf_entry distinct_map_sort_key .
qed

lemma reported_values:
  "v \<in> dup_value ` set (duplicateValuesOf (scanned rs col))
   \<longleftrightarrow> trim v \<noteq> [] \<and> 2 \<le> length (filter (\<lambda>r. or_empty (get r col) = Str v) rs)"
proof
  assume "v \<in> dup_value ` set (duplicateValuesOf (scanned rs col))"
  then obtain e where e: "e \<in> set (scanned rs col)" "fst (snd e) > 1" "fst e = v"
    by (auto simp: set_duplicateValuesOf entry_def)
  with scan_entry_rows [OF e(1)]
  show "trim v \<noteq> [] \<and> 2 \<le> length (filter (\<lambda>r. or_empty (get r col) = Str v) rs)"
    by auto
next
  assume a: "trim v \<noteq> [] \<and> 2 \<le> length (filter (\<lambda>r. or_empty (get r col) = Str v) rs)"
  then have "filter (\<lambda>r. or_empty (get r col) = Str v) rs \<noteq> []" by auto
  then obtain r where "r \<in> set rs" "or_empty (get r col) = Str v"
    by (auto simp: filter_empty_conv)
  then have "Str v \<in> (\<lambda>r. or_empty (get r col)) ` set rs"
    by (metis imageI)
  with a have "v \<in> fst ` set (scanned rs col)" by (simp add: scan_keys)
  then obtain e where e: "e \<in> set (scanned rs col)" "fst e = v" by auto
  with scan_entry_rows(2) [OF e(1)] a have "fst (snd e) > 1" by simp
  with e have "entry e \<in> set (duplicateValuesOf (scanned rs col))"
    by (auto simp: set_duplicateValuesOf)
  moreover have "dup_value (entry e) = v" using e by (simp add: entry_def)
  ultimately show "v \<in> dup_value ` set (duplicateValuesOf (scanned rs col))"
    by force
qed

lemma reported_entry:
  assumes "d \<in> set (duplicateValuesOf (scanned rs col))"
  shows "trim (dup_value d) \<noteq> [] \<and>
         dup_count d = length (filter (\<lambda>r. or_empty (get r col) = Str (dup_value d)) rs) \<and>
         rowNumbers d = map (\<lambda>i. i + 2)
           (filter (\<lambda>i. or_empty (get (rs ! i) col) = Str (dup_value d)) [0..<length rs])"
proof -
  from assms obtain e where e: "e \<in> set (scanned rs col)" "d = entry e"
    by (auto simp: set_duplicateValuesOf)
  with scan_entry_rows [OF e(1)] show ?thesis by (simp add: entry_def)
qed

lemma reported_descending:
  "sorted_wrt (\<lambda>a b. dup_count b \<le> dup_count a) (duplicateValuesOf m)"
proof -
  have "sorted (map (\<lambda>d. - int (dup_count d)) (duplicateValuesOf m))"
    unfolding duplicateValuesOf_entry by (rule sorted_sort_key)
  then show ?thesis by (simp add: sorted_map)
qed

lemma reported_ties:
  "sorted_wrt (\<lambda>a b. hd (rowNumbers a) < hd (rowNumbers b))
     (filter (\<lambda>d. dup_count d = k) (duplicateValuesOf (scanned rs col)))"
proof -
  let ?m = "scanned rs col"
  let ?ys = "filter (\<lambda>e. fst (snd e) > 1) ?m"
  let ?P = "\<lambda>a b. hd (rowNumbers a) < hd (rowNumbers b)"
  from scan_tallied [of rs col]
  have "sorted_wrt (\<lambda>a b. hd (snd (snd a)) < hd (snd (snd b))) ?m" by (simp add: tallied_def)
  then have "sorted_wrt (\<lambda>a b. hd (snd (snd a)) < hd (snd (snd b))) ?ys"
    by (rule sorted_wrt_filter)
  then have "sorted_wrt ?P (map entry ?ys)"
    by (simp add: sorted_wrt_map entry_def)
  then have s: "sorted_wrt ?P (filter (\<lambda>d. - int (dup_count d) = - int k) (map entry ?ys))"
    by (rule sorted_wrt_filter)
  have "filter (\<lambda>d. dup_count d = k) (duplicateValuesOf ?m)
        = filter (\<lambda>d. - int (dup_count d) = - int k) (duplicateValuesOf ?m)"
    by simp
  also have "\<dots> = filter (\<lambda>d. - int (dup_count d) = - int k) (map entry ?ys)"
    unfolding duplicateValuesOf_entry by (rule sort_key_stable)
  finally show ?thesis using s by simp
qed

lemma reported_none:
  assumes once: "\<forall>v. trim v \<noteq> [] \<longrightarrow>
               length (filter (\<lambda>r. or_empty (get r col) = Str v) rs) \<le> 1"
  shows "duplicateValuesOf (scanned rs col) = []"
proof (cases "duplicateValuesOf (scanned rs col)")
  case Nil
  then show ?thesis .
next
  case (Cons d ds)
  then have "dup_value d \<in> dup_value ` set (duplicateValuesOf (scanned rs col))"
    by simp
  then have "trim (dup_value d) \<noteq> [] \<and>
             2 \<le> length (filter (\<lambda>r. or_empty (get r col) = Str (dup_value d)) rs)"
    using reported_values [of "dup_value d" rs col] by blast
  moreover from this once
  have "length (filter (\<lambda>r. or_empty (get r col) = Str (dup_value d)) rs) \<le> 1"
    by blast
  ultimately have False by linarith
  then show ?thesis ..
qed

lemma columnExists_own:
  "col \<notin> set protoNames \<Longrightarrow>
   columnExists rs col \<longleftrightarrow> rs \<noteq> [] \<and> col \<in> fst ` set (hd rs)"
  by (cases rs) (simp_all add: columnExists_def has_def)

lemma checkForDuplicates_own_columns:
  assumes "set cs \<inter> set protoNames = {}"
    and "checkForDuplicates rs cs = Inr results"
  shows "map column results = filter (\<lambda>col. rs \<noteq> [] \<and> col \<in> fst ` set (hd rs)) cs"
proof -
  have "filter (columnExists rs) cs = filter (\<lambda>col. rs \<noteq> [] \<and> col \<in> fst ` set (hd rs)) cs"
  proof (rule filter_cong)
    fix col assume "col \<in> set cs"
    with assms(1) have "col \<notin> set protoNames" by blast
    then show "columnExists rs col \<longleftrightarrow> rs \<noteq> [] \<and> col \<in> fst ` set (hd rs)"
      by (rule columnExists_own)
  qed simp
  with checkForDuplicates_columns [OF assms(2)] show ?thesis by simp
qed

lemma columnExists_readable:
  assumes "columnExists rs col" and "readable rs col"
  shows "rs \<noteq> [] \<and> col \<in> fst ` set (hd rs)"
proof (cases rs)
  case Nil
  with assms(1) show ?thesis by (simp add: columnExists_def)
next
  case (Cons r rs')
  with assms(2) have s: "isStr (or_empty (get r col))" by (simp add: readable_Cons)
  have "col \<in> fst ` set r"
  proof (rule ccontr)
    assume n: "col \<notin> fst ` set r"
    then have none: "map_of r col = None" by (simp add: map_of_eq_None_iff)
    from assms(1) Cons n have "col \<in> set protoNames" by (simp add: columnExists_def has_def)
    with none have "or_empty (get r col) = Inherited col" by (simp add: get_def or_empty_def)
    with s show False by (simp add: isStr_def)
  qed
  with Cons show ?thesis by simp
qed

lemma checkForDuplicates_first_keys:
  assumes "checkForDuplicates rs cs = Inr results"
  shows "map column results = filter (\<lambda>col. rs \<noteq> [] \<and> col \<in> fst ` set (hd rs)) cs"
proof -
  from assms have r: "\<forall>col \<in> set cs. columnExists rs col \<longrightarrow> readable rs col"
    by (simp add: checkForDuplicates_returns split: if_splits)
  have "filter (columnExists rs) cs = filter (\<lambda>col. rs \<noteq> [] \<and> col \<in> fst ` set (hd rs)) cs"
  proof (rule filter_cong)
    fix col assume c: "col \<in> set cs"
    show "columnExists rs col \<longleftrightarrow> rs \<noteq> [] \<and> col \<in> fst ` set (hd rs)"
    proof
      assume e: "columnExists rs col"
      with r c have "readable rs col" by blast
      with e show "rs \<noteq> [] \<and> col \<in> fst ` set (hd rs)" by (rule columnExists_readable)
    next
      assume "rs \<noteq> [] \<and> col \<in> fst ` set (hd rs)"
      then show "columnExists rs col"
        by (cases rs) (simp_all add: columnExists_def has_def)
    qed
  qed simp
  with checkForDuplicates_columns [OF assms] show ?thesis by simp
qed

section \<open>Claims on the duplicate detector\<close>

text \<open>
  C5. \<open>checkForDuplicates\<close> returns a report exactly when every value it reads in a
  checked column that passes the presence test is a string; the test is passed by the
  keys of the first record and by the names of the members it inherits. The report then
  has one result for each checked column that is a key of the first record, in the order
  of the checked columns, and none for any other column. In every result the reported values
  are exactly the values of the column that are not blank and occur at least twice, each
  reported once, with its number of occurrences and with the row positions \<open>index + 2\<close>
  of its occurrences (the first data record is row 2); the entries are sorted by
  occurrence count descending, and entries with equal counts stay in first-seen order
  (the order of their first rows). The instance below is the spec's scenario: the values
  a, a, b give exactly one entry, a, count 2, rows 2 and 3.
\<close>

theorem checkForDuplicates_report:
  "((\<exists>results. checkForDuplicates rs cs = Inr results)
      \<longleftrightarrow> (\<forall>col \<in> set cs. columnExists rs col \<longrightarrow> readable rs col))
   \<and> (columnExists rs col
      \<longleftrightarrow> rs \<noteq> [] \<and> (col \<in> fst ` set (hd rs) \<or> col \<in> set protoNames))
   \<and> (\<forall>results. checkForDuplicates rs cs = Inr results \<longrightarrow>
        map column results = filter (\<lambda>c. rs \<noteq> [] \<and> c \<in> fst ` set (hd rs)) cs \<and>
        (\<forall>res \<in> set results.
           distinct (map dup_value (duplicateValues res)) \<and>
           (\<forall>v. v \<in> dup_value ` set (duplicateValues res) \<longleftrightarrow>
                  trim v \<noteq> [] \<and>
                  2 \<le> length (filter (\<lambda>r. or_empty (get r (column res)) = Str v) rs)) \<and>
           (\<forall>d \<in> set (duplicateValues res).
              dup_count d
                = length (filter (\<lambda>r. or_empty (get r (column res)) = Str (dup_value d)) rs) \<and>
              rowNumbers d
                = map (\<lambda>i. i + 2)
                    (filter (\<lambda>i. or_empty (get (rs ! i) (column res)) = Str (dup_value d))
                       [0..<length rs])) \<and>
           sorted_wrt (\<lambda>a b. dup_count b \<le> dup_count a) (duplicateValues res) \<and>
           (\<forall>k. sorted_wrt (\<lambda>a b. hd (rowNumbers a) < hd (rowNumbers b))
                  (filter (\<lambda>d. dup_count d = k) (duplicateValues res)))))"
proof (intro conjI allI impI ballI)
  show "(\<exists>results. checkForDuplicates rs cs = Inr results)
      \<longleftrightarrow> (\<forall>col \<in> set cs. columnExists rs col \<longrightarrow> readable rs col)"
    by (simp add: checkForDuplicates_returns)
  show "columnExists rs col
      \<longleftrightarrow> rs \<noteq> [] \<and> (col \<in> fst ` set (hd rs) \<or> col \<in> set protoNames)"
    by (cases rs) (simp_all add: columnExists_def has_def)
next
  fix results assume r: "checkForDuplicates rs cs = Inr results"
  then show "map column results = filter (\<lambda>c. rs \<noteq> [] \<and> c \<in> fst ` set (hd rs)) cs"
    by (rule checkForDuplicates_first_keys)
  fix res assume "res \<in> set results"
  with r have ds: "duplicateValues res = duplicateValuesOf (scanned rs (column res))"
    by (simp add: checkForDuplicates_member)
  show "distinct (map dup_value (duplicateValues res))"
    unfolding ds by (rule reported_distinct)
  show "sorted_wrt (\<lambda>a b. dup_count b \<le> dup_count a) (duplicateValues res)"
    unfolding ds by (rule reported_descending)
  show "v \<in> dup_value ` set (duplicateValues res) \<longleftrightarrow>
               trim v \<noteq> [] \<and>
               2 \<le> length (filter (\<lambda>r. or_empty (get r (column res)) = Str v) rs)" for v
    unfolding ds by (rule reported_values)
  show "sorted_wrt (\<lambda>a b. hd (rowNumbers a) < hd (rowNumbers b))
               (filter (\<lambda>d. dup_count d = k) (duplicateValues res))" for k
    unfolding ds by (rule reported_ties)
  fix d assume d: "d \<in> set (duplicateValues res)"
  then have d': "d \<in> set (duplicateValuesOf (scanned rs (column res)))"
    by (simp add: ds)
  from reported_entry [OF d']
  show "dup_count d
             = length (filter (\<lambda>r. or_empty (get r (column res)) = Str (dup_value d)) rs)"
    and "rowNumbers d
             = map (\<lambda>i. i + 2)
                 (filter (\<lambda>i. or_empty (get (rs ! i) (column res)) = Str (dup_value d))
                    [0..<length rs])"
    by simp_all
qed

theorem checkForDuplicates_report_witness:
  "columnExists
     [ [(''Repo_Name'', Str ''a'')], [(''Repo_Name'', Str ''a'')], [(''Repo_Name'', Str ''b'')] ]
     ''Repo_Name'' \<and>
   readable
     [ [(''Repo_Name'', Str ''a'')], [(''Repo_Name'', Str ''a'')], [(''Repo_Name'', Str ''b'')] ]
     ''Repo_Name'' \<and>
   checkForDuplicates
     [ [(''Repo_Name'', Str ''a'')], [(''Repo_Name'', Str ''a'')], [(''Repo_Name'', Str ''b'')] ]
     [''Repo_Name'']
   = Inr [\<lparr>column = ''Repo_Name'',
            duplicateValues = [\<lparr>dup_value = ''a'', dup_count = 2, rowNumbers = [2, 3]\<rparr>]\<rparr>]"
proof -
  have ev: "checkForDuplicates
     [ [(''Repo_Name'', Str ''a'')], [(''Repo_Name'', Str ''a'')], [(''Repo_Name'', Str ''b'')] ]
     [''Repo_Name'']
   = Inr [\<lparr>column = ''Repo_Name'',
            duplicateValues = [\<lparr>dup_value = ''a'', dup_count = 2, rowNumbers = [2, 3]\<rparr>]\<rparr>]"
    by code_simp
  have ex: "columnExists
     [ [(''Repo_Name'', Str ''a'')], [(''Repo_Name'', Str ''a'')], [(''Repo_Name'', Str ''b'')] ]
     ''Repo_Name''"
    by (simp add: columnExists_def has_def)
  have rd: "readable
     [ [(''Repo_Name'', Str ''a'')], [(''Repo_Name'', Str ''a'')], [(''Repo_Name'', Str ''b'')] ]
     ''Repo_Name''"
    by code_simp
  show ?thesis
    using ev ex rd checkForDuplicates_report
      [of "[ [(''Repo_Name'', Str ''a'')], [(''Repo_Name'', Str ''a'')],
             [(''Repo_Name'', Str ''b'')] ]"
          "[''Repo_Name'']" "''Repo_Name''"]
    by blast
qed

text \<open>
  C5, as first stated, asks a report for each value that occurs at least twice in a
  column present in the records. A whitespace-only value that occurs twice is not
  reported, and a column that only the second and third records hold gets no result
  although its value occurs twice.
\<close>

theorem checkForDuplicates_report_counterexample:
  "columnExists [ [(''Repo_Name'', Str ''  '')], [(''Repo_Name'', Str ''  '')] ] ''Repo_Name'' \<and>
   length (filter (\<lambda>r. or_empty (get r ''Repo_Name'') = Str ''  '')
             [ [(''Repo_Name'', Str ''  '')], [(''Repo_Name'', Str ''  '')] ]) = 2 \<and>
   checkForDuplicates [ [(''Repo_Name'', Str ''  '')], [(''Repo_Name'', Str ''  '')] ]
     [''Repo_Name'']
     = Inr [\<lparr>column = ''Repo_Name'', duplicateValues = []\<rparr>] \<and>
   checkForDuplicates
     [ [(''Org_Name'', Str ''o'')], [(''Org_Name'', Str ''p''), (''Repo_Name'', Str ''a'')],
       [(''Org_Name'', Str ''q''), (''Repo_Name'', Str ''a'')] ]
     [''Repo_Name''] = Inr []"
  by code_simp

text \<open>
  C6. \<open>checkForDuplicates\<close> skips blank and whitespace-only values: the map of counted
  values never holds one, no result reports one, and a column in which every value that is
  not blank occurs at most once (only blanks and unique values) reports no duplicate
  entry. The scan of a column ends with a map, and the check with a report, whenever the
  values read are strings.
\<close>

theorem checkForDuplicates_skips_blank:
  "(readable rs col \<longrightarrow> (\<exists>m. forEachRecord rs 0 col [] = Inr m))
   \<and> (\<forall>m. forEachRecord rs 0 col [] = Inr m \<longrightarrow> (\<forall>e \<in> set m. trim (fst e) \<noteq> []))
   \<and> ((\<forall>c \<in> set cs. columnExists rs c \<longrightarrow> readable rs c)
        \<longrightarrow> (\<exists>results. checkForDuplicates rs cs = Inr results))
   \<and> (\<forall>results. checkForDuplicates rs cs = Inr results \<longrightarrow>
        (\<forall>res \<in> set results.
           (\<forall>d \<in> set (duplicateValues res). trim (dup_value d) \<noteq> []) \<and>
           ((\<forall>v. trim v \<noteq> [] \<longrightarrow>
                  length (filter (\<lambda>r. or_empty (get r (column res)) = Str v) rs) \<le> 1)
              \<longrightarrow> duplicateValues res = [])))"
proof -
  have 0: "readable rs col \<longrightarrow> (\<exists>m. forEachRecord rs 0 col [] = Inr m)"
    by (simp add: forEachRecord_scanned)
  have 1: "\<forall>e \<in> set m. trim (fst e) \<noteq> []" if "forEachRecord rs 0 col [] = Inr m" for m
  proof -
    from that have "m = scanned rs col"
      by (simp add: forEachRecord_scanned split: if_splits)
    then show ?thesis using scan_entry_rows(1) by blast
  qed
  have 2: "(\<forall>c \<in> set cs. columnExists rs c \<longrightarrow> readable rs c)
        \<longrightarrow> (\<exists>results. checkForDuplicates rs cs = Inr results)"
    by (simp add: checkForDuplicates_returns)
  have 3: "trim (dup_value d) \<noteq> []"
    if "checkForDuplicates rs cs = Inr results" "res \<in> set results"
       "d \<in> set (duplicateValues res)" for results res d
  proof -
    from that have "d \<in> set (duplicateValuesOf (scanned rs (column res)))"
      by (simp add: checkForDuplicates_member)
    then have "trim (dup_value d) \<noteq> [] \<and>
         dup_count d
           = length (filter (\<lambda>r. or_empty (get r (column res)) = Str (dup_value d)) rs) \<and>
         rowNumbers d = map (\<lambda>i. i + 2)
           (filter (\<lambda>i. or_empty (get (rs ! i) (column res)) = Str (dup_value d))
              [0..<length rs])"
      by (rule reported_entry)
    then show ?thesis by (rule conjunct1)
  qed
  have 4: "duplicateValues res = []"
    if "checkForDuplicates rs cs = Inr results" "res \<in> set results"
      and "\<forall>v. trim v \<noteq> [] \<longrightarrow>
               length (filter (\<lambda>r. or_empty (get r (column res)) = Str v) rs) \<le> 1"
    for results res
    using that by (simp add: checkForDuplicates_member reported_none)
  show ?thesis
    using 0 1 2 3 4 by blast
qed

theorem checkForDuplicates_skips_blank_witness:
  "readable
     [ [(''Repo_Name'', Str '''')], [(''Repo_Name'', Str ''   '')],
       [(''Repo_Name'', Str ''only'')], [(''Repo_Name'', Str '''')],
       [(''Repo_Name'', Str ''   '')] ] ''Repo_Name'' \<and>
   forEachRecord
     [ [(''Repo_Name'', Str '''')], [(''Repo_Name'', Str ''   '')],
       [(''Repo_Name'', Str ''only'')], [(''Repo_Name'', Str '''')],
       [(''Repo_Name'', Str ''   '')] ] 0 ''Repo_Name'' []
   = Inr [(''only'', 1, [4])] \<and>
   checkForDuplicates
     [ [(''Repo_Name'', Str '''')], [(''Repo_Name'', Str ''   '')],
       [(''Repo_Name'', Str ''only'')], [(''Repo_Name'', Str '''')],
       [(''Repo_Name'', Str ''   '')] ]
     [''Repo_Name'']
   = Inr [\<lparr>column = ''Repo_Name'', duplicateValues = []\<rparr>]"
proof -
  have rd: "readable
     [ [(''Repo_Name'', Str '''')], [(''Repo_Name'', Str ''   '')],
       [(''Repo_Name'', Str ''only'')], [(''Repo_Name'', Str '''')],
       [(''Repo_Name'', Str ''   '')] ] ''Repo_Name''"
    by code_simp
  have sc: "forEachRecord
     [ [(''Repo_Name'', Str '''')], [(''Repo_Name'', Str ''   '')],
       [(''Repo_Name'', Str ''only'')], [(''Repo_Name'', Str '''')],
       [(''Repo_Name'', Str ''   '')] ] 0 ''Repo_Name'' []
   = Inr [(''only'', 1, [4])]"
    by code_simp
  have ev: "checkForDuplicates
     [ [(''Repo_Name'', Str '''')], [(''Repo_Name'', Str ''   '')],
       [(''Repo_Name'', Str ''only'')], [(''Repo_Name'', Str '''')],
       [(''Repo_Name'', Str ''   '')] ]
     [''Repo_Name'']
   = Inr [\<lparr>column = ''Repo_Name'', duplicateValues = []\<rparr>]"
    by code_simp
  show ?thesis
    using rd sc ev checkForDuplicates_skips_blank
      [of "[ [(''Repo_Name'', Str '''')], [(''Repo_Name'', Str ''   '')],
             [(''Repo_Name'', Str ''only'')], [(''Repo_Name'', Str '''')],
             [(''Repo_Name'', Str ''   '')] ]" "''Repo_Name''" "[''Repo_Name'']"]
    by blast
qed

text \<open>
  C10. The presence test \<open>column in records[0]\<close> is not decided by the keys of the first
  record alone: it also holds for the name of every member the record inherits from
  \<open>Object.prototype\<close>. The first record below has the one key \<open>Org_Name\<close>; the checked
  column \<open>toString\<close> is not skipped, the value read for it is the inherited function, and
  the call of its \<open>trim\<close> throws. In a run configured to check that column the exception
  leaves \<open>processCsvMerge\<close> after the output file has been written. For a column that no
  record inherits, the test is the one on the keys of the first record
  (\<open>columnExists_own\<close>), and a column that only later records hold is skipped.
\<close>

theorem checkForDuplicates_inherited_column:
  "''toString'' \<notin> fst ` set [(''Org_Name'', Str ''o'')] \<and>
   columnExists [ [(''Org_Name'', Str ''o'')] ] ''toString'' \<and>
   or_empty (get [(''Org_Name'', Str ''o'')] ''toString'') = Inherited ''toString'' \<and>
   checkForDuplicates [ [(''Org_Name'', Str ''o'')] ] [''toString'']
     = Inl ''value.trim is not a function'' \<and>
   processCsvMerge world_toString ''in'' ''out'' ''merged'' ''columns.json''
     = (Throws ''value.trim is not a function'',
        [\<lparr>writtenRecords =
            [ [(''Enterprise'', Str ''GHEC''), (''Org_Name'', Str ''o''), (''Repo_Name'', Str ''r'')],
              [(''Enterprise'', Str ''GHES''), (''Org_Name'', Str ''o''), (''Repo_Name'', Str ''r'')],
              [(''Enterprise'', Str ''GHEC''), (''Org_Name'', Str ''o''), (''Repo_Name'', Str ''r'')] ],
          outputPath = ''out/merged_20250709_143045.csv'',
          writtenColumns = [''Enterprise'', ''Org_Name'', ''Repo_Name'']\<rparr>]) \<and>
   checkForDuplicates
     [ [(''Org_Name'', Str ''o'')], [(''Repo_Name'', Str ''a'')], [(''Repo_Name'', Str ''a'')] ]
     [''Repo_Name''] = Inr [] \<and>
   checkForDuplicates [] [''Repo_Name'', ''toString''] = Inr []"
  by code_simp

section \<open>Properties of the merge engine and the orchestrator\<close>

lemma tryFile_fails:
  "fileFails w filePath \<Longrightarrow>
   \<exists>res' out. tryFile w cfg filePath res = (res', out) \<and> out \<noteq> Returns ()"
  by (auto simp: fileFails_def tryFile_def Let_def isl_def split: sum.splits outcome.splits)

lemma tryFile_ok:
  "\<not> fileFails w filePath \<Longrightarrow>
   \<exists>res'. tryFile w cfg filePath res = (res', Returns ()) \<and>
          errors res' = errors res @ fileWarnings w cfg filePath"
  by (auto simp: fileFails_def tryFile_def fileWarnings_def Let_def isl_def
           split: sum.splits outcome.splits)

lemma forEachFile_fails:
  "\<exists>f \<in> set csvFiles. fileFails w f \<Longrightarrow>
   \<exists>res' out. forEachFile w cfg csvFiles res = (res', out) \<and> out \<noteq> Returns ()"
proof (induction csvFiles arbitrary: res)
  case Nil
  then show ?case by simp
next
  case (Cons f csvFiles)
  show ?case
  proof (cases "fileFails w f")
    case True
    from tryFile_fails [OF True, of cfg res] obtain res' out
      where "tryFile w cfg f res = (res', out)" "out \<noteq> Returns ()" by blast
    then show ?thesis by (cases out) (simp_all add: Let_def)
  next
    case False
    from tryFile_ok [OF False, of cfg res] obtain res'
      where t: "tryFile w cfg f res = (res', Returns ())" by blast
    from False Cons.prems have "\<exists>f \<in> set csvFiles. fileFails w f" by auto
    from Cons.IH [OF this, of res'] t show ?thesis by simp
  qed
qed

lemma forEachFile_ok:
  "forEachFile w cfg csvFiles res = (res', Returns u) \<Longrightarrow>
   errors res' = errors res @ concat (map (fileWarnings w cfg) csvFiles)"
proof (induction csvFiles arbitrary: res)
  case Nil
  then show ?case by simp
next
  case (Cons f csvFiles)
  show ?case
  proof (cases "fileFails w f")
    case True
    from tryFile_fails [OF True, of cfg res] obtain r out
      where "tryFile w cfg f res = (r, out)" "out \<noteq> Returns ()" by blast
    with Cons.prems show ?thesis by (cases out) (simp_all add: Let_def)
  next
    case False
    from tryFile_ok [OF False, of cfg res] obtain r
      where t: "tryFile w cfg f res = (r, Returns ())"
        and e: "errors r = errors res @ fileWarnings w cfg f" by blast
    from Cons.prems t have "forEachFile w cfg csvFiles r = (res', Returns u)" by simp
    from Cons.IH [OF this] e show ?thesis by simp
  qed
qed

lemma caught_fails: "\<not> success (caught res e)"
  by (simp add: caught_def)

text \<open>\<open>mergeCsvFiles\<close> never rejects, and a result it returns after a failure is marked.\<close>

lemma merge_fails:
  assumes "getCsvFiles w inputDir = Inr csvFiles" and "\<exists>f \<in> set csvFiles. fileFails w f"
  shows "\<forall>result. mergeCsvFiles w inputDir cfg = Returns result \<longrightarrow> \<not> success result"
proof -
  from forEachFile_fails [OF assms(2)] obtain res' out
    where "forEachFile w cfg csvFiles
             (\<lparr>success = False, records = [], totalFiles = 0, totalRecords = 0,
               errors = []\<rparr>\<lparr>totalFiles := length csvFiles\<rparr>) = (res', out)"
      and "out \<noteq> Returns ()"
    by blast
  with assms(1) show ?thesis
    by (cases out) (auto simp: mergeCsvFiles_def caught_fails)
qed

lemma merge_no_files:
  assumes "getCsvFiles w inputDir = Inl e"
  shows "\<exists>result. mergeCsvFiles w inputDir cfg = Returns result \<and> \<not> success result"
  using assms by (simp add: mergeCsvFiles_def caught_fails)

lemma getCsvFiles_none:
  assumes "existsSync w inputDir" and "readdirSync w inputDir = Inr names"
    and "filter (\<lambda>file. endsWith (toLowerCase w file) ''.csv'') names = []"
  shows "getCsvFiles w inputDir = Inl (''No CSV files found in directory: '' @ inputDir)"
  using assms by (simp add: getCsvFiles_def)

text \<open>
  A run in which the merge does not return a result marked as a success writes nothing
  and prints no summary.
\<close>

lemma process_fails:
  assumes "\<And>cfg result. mergeCsvFiles w inputDir cfg = Returns result \<Longrightarrow> \<not> success result"
  shows "snd (processCsvMerge w inputDir outputDir outputFilename configPath) = [] \<and>
         (\<forall>s. fst (processCsvMerge w inputDir outputDir outputFilename configPath) \<noteq> Returns s)"
proof (cases "loadColumnConfig w configPath")
  case (Inl e)
  then show ?thesis by (simp add: processCsvMerge_def)
next
  case (Inr cfg)
  show ?thesis
  proof (cases "mergeCsvFiles w inputDir cfg")
    case (Returns result)
    with assms have "\<not> success result" by blast
    with Inr Returns show ?thesis by (simp add: processCsvMerge_def)
  qed (simp_all add: Inr processCsvMerge_def)
qed

lemma failing_run_writes_nothing:
  assumes "(\<exists>csvFiles. getCsvFiles w inputDir = Inr csvFiles \<and>
                       (\<exists>filePath \<in> set csvFiles. fileFails w filePath))
           \<or> (\<exists>e. getCsvFiles w inputDir = Inl e)"
  shows "snd (processCsvMerge w inputDir outputDir outputFilename configPath) = [] \<and>
         (\<forall>s. fst (processCsvMerge w inputDir outputDir outputFilename configPath) \<noteq> Returns s)"
proof (rule process_fails)
  fix cfg result assume m: "mergeCsvFiles w inputDir cfg = Returns result"
  from assms show "\<not> success result"
  proof (elim disjE exE conjE)
    fix csvFiles
    assume "getCsvFiles w inputDir = Inr csvFiles"
      and "\<exists>filePath \<in> set csvFiles. fileFails w filePath"
    from merge_fails [OF this, of cfg] m show ?thesis by blast
  next
    fix e assume "getCsvFiles w inputDir = Inl e"
    from merge_no_files [OF this, of cfg] m show ?thesis by auto
  qed
qed

text \<open>
  Where every file that is opened settles (no \<open>error\<close> of the read stream, and a first
  line), a failure is a rejection: the merge returns a result with \<open>success = False\<close> and
  \<open>processCsvMerge\<close> throws.
\<close>

lemma tryFile_settles:
  "settles w filePath \<Longrightarrow>
   \<exists>res' out. tryFile w cfg filePath res = (res', out) \<and>
              out \<noteq> NeverSettles \<and> (\<forall>e. out \<noteq> Crashes e)"
  by (auto simp: settles_def tryFile_def readCsvFile_def getCsvHeaders_def Let_def
           split: sum.splits fileRead.splits option.splits)

lemma forEachFile_settles:
  "\<forall>f \<in> set csvFiles. settles w f \<Longrightarrow>
   \<exists>res' out. forEachFile w cfg csvFiles res = (res', out) \<and>
              out \<noteq> NeverSettles \<and> (\<forall>e. out \<noteq> Crashes e)"
proof (induction csvFiles arbitrary: res)
  case Nil
  then show ?case by simp
next
  case (Cons f csvFiles)
  from Cons.prems have "settles w f" by simp
  from tryFile_settles [OF this, of cfg res] obtain res' out
    where t: "tryFile w cfg f res = (res', out)" "out \<noteq> NeverSettles" "\<forall>e. out \<noteq> Crashes e"
    by blast
  from Cons.prems have rest: "\<forall>f \<in> set csvFiles. settles w f" by simp
  show ?case
  proof (cases out)
    case (Returns u)
    with t Cons.IH [OF rest, of res'] show ?thesis by simp
  next
    case (Throws e)
    with t show ?thesis by (simp add: Let_def)
  next
    case NeverSettles
    with t show ?thesis by simp
  next
    case (Crashes e)
    with t show ?thesis by simp
  qed
qed

lemma merge_settles:
  assumes "getCsvFiles w inputDir = Inr csvFiles" and "\<forall>f \<in> set csvFiles. settles w f"
  shows "\<exists>result. mergeCsvFiles w inputDir cfg = Returns result"
proof -
  from forEachFile_settles [OF assms(2)] obtain res' out
    where "forEachFile w cfg csvFiles
             (\<lparr>success = False, records = [], totalFiles = 0, totalRecords = 0,
               errors = []\<rparr>\<lparr>totalFiles := length csvFiles\<rparr>) = (res', out)"
      and "out \<noteq> NeverSettles" "\<forall>e. out \<noteq> Crashes e"
    by blast
  with assms(1) show ?thesis
    by (cases out) (auto simp: mergeCsvFiles_def)
qed

lemma settled_failure_throws:
  assumes files: "getCsvFiles w inputDir = Inr csvFiles"
    and settle: "\<forall>f \<in> set csvFiles. settles w f"
    and fails: "\<exists>f \<in> set csvFiles. fileFails w f"
  shows "(\<exists>result. mergeCsvFiles w inputDir cfg = Returns result \<and> \<not> success result) \<and>
         (\<exists>msg. processCsvMerge w inputDir outputDir outputFilename configPath
                  = (Throws msg, []))"
proof -
  have m: "\<exists>result. mergeCsvFiles w inputDir c = Returns result \<and> \<not> success result" for c
    using merge_settles [OF files settle, of c] merge_fails [OF files fails, of c] by blast
  show ?thesis
  proof (cases "loadColumnConfig w configPath")
    case (Inl e)
    with m show ?thesis by (simp add: processCsvMerge_def)
  next
    case (Inr c)
    from m [of c] obtain result
      where "mergeCsvFiles w inputDir c = Returns result" "\<not> success result" by blast
    with Inr m show ?thesis by (simp add: processCsvMerge_def)
  qed
qed

lemma no_files_throws:
  assumes "getCsvFiles w inputDir = Inl e"
  shows "(\<exists>result. mergeCsvFiles w inputDir cfg = Returns result \<and> \<not> success result) \<and>
         (\<exists>msg. processCsvMerge w inputDir outputDir outputFilename configPath
                  = (Throws msg, []))"
proof -
  have m: "\<exists>result. mergeCsvFiles w inputDir c = Returns result \<and> \<not> success result" for c
    using assms by (rule merge_no_files)
  show ?thesis
  proof (cases "loadColumnConfig w configPath")
    case (Inl e)
    with m show ?thesis by (simp add: processCsvMerge_def)
  next
    case (Inr c)
    from m [of c] obtain result
      where "mergeCsvFiles w inputDir c = Returns result" "\<not> success result" by blast
    with Inr m show ?thesis by (simp add: processCsvMerge_def)
  qed
qed

lemma includes_prefix: "includes_str (p @ s) p"
proof (cases "p @ s")
  case Nil
  then show ?thesis by simp
next
  case (Cons c cs)
  have "take (length p) (p @ s) = p" by simp
  with Cons show ?thesis by simp
qed

lemma warning_marked: "includes_str (warningMsg filePath unexpected) warning_sign"
  unfolding warningMsg_def by (rule includes_prefix)

lemma validate_warnings:
  "warnings (fst (validateAndFilterColumns filePath headers cfg))
   = (if unexpectedColumns headers cfg = [] then []
      else [warningMsg filePath (unexpectedColumns headers cfg)])"
  by (simp add: validateAndFilterColumns_def Let_def)

lemma fileWarnings_marked:
  "e \<in> set (fileWarnings w cfg filePath) \<Longrightarrow> includes_str e warning_sign"
  by (auto simp: fileWarnings_def validate_warnings warning_marked
           split: outcome.splits if_splits)

lemma fileWarnings_count:
  "length (concat (map (fileWarnings w cfg) csvFiles))
   = length (filter (hasUnexpected w cfg) csvFiles)"
  by (induction csvFiles)
     (auto simp: fileWarnings_def hasUnexpected_def validate_warnings split: outcome.splits)

lemma merge_success_errors:
  assumes "mergeCsvFiles w inputDir cfg = Returns result" and "success result"
  shows "\<exists>csvFiles. getCsvFiles w inputDir = Inr csvFiles \<and>
           errors result = concat (map (fileWarnings w cfg) csvFiles)"
proof (cases "getCsvFiles w inputDir")
  case (Inl e)
  with assms show ?thesis by (auto simp: mergeCsvFiles_def caught_fails)
next
  case (Inr csvFiles)
  let ?r0 = "\<lparr>success = False, records = [], totalFiles = 0, totalRecords = 0,
               errors = []\<rparr>\<lparr>totalFiles := length csvFiles\<rparr>"
  obtain res x where f: "forEachFile w cfg csvFiles ?r0 = (res, x)"
    by (cases "forEachFile w cfg csvFiles ?r0")
  show ?thesis
  proof (cases x)
    case (Returns u)
    with f forEachFile_ok [of w cfg csvFiles ?r0 res u]
    have "errors res = concat (map (fileWarnings w cfg) csvFiles)" by simp
    with Inr f Returns assms show ?thesis by (auto simp: mergeCsvFiles_def)
  next
    case (Throws e)
    with Inr f assms show ?thesis by (auto simp: mergeCsvFiles_def caught_fails)
  next
    case NeverSettles
    with Inr f assms show ?thesis by (simp add: mergeCsvFiles_def)
  next
    case (Crashes e)
    with Inr f assms show ?thesis by (simp add: mergeCsvFiles_def)
  qed
qed

lemma process_returns:
  assumes cfg: "loadColumnConfig w configPath = Inr cfg"
    and ok: "fst (processCsvMerge w inputDir outputDir outputFilename configPath) = Returns s"
  shows "\<exists>result. mergeCsvFiles w inputDir cfg = Returns result \<and> success result \<and>
           filter (\<lambda>e. \<not> includes_str e warning_sign) (errors result) = [] \<and>
           warningCount s = length (filter (\<lambda>e. includes_str e warning_sign) (errors result))"
proof (cases "mergeCsvFiles w inputDir cfg")
  case (Returns result)
  with cfg ok have succ: "success result"
    by (auto simp: processCsvMerge_def split: if_splits)
  with cfg ok Returns
  have none: "filter (\<lambda>e. \<not> includes_str e warning_sign) (errors result) = []"
    by (auto simp: processCsvMerge_def Let_def split: if_splits)
  from cfg ok Returns succ none
  have "warningCount s = length (filter (\<lambda>e. includes_str e warning_sign) (errors result))"
    by (auto simp: processCsvMerge_def Let_def split: option.splits if_splits sum.splits)
  with Returns succ none show ?thesis by simp
next
  case (Throws e)
  with cfg ok show ?thesis by (simp add: processCsvMerge_def)
next
  case NeverSettles
  with cfg ok show ?thesis by (simp add: processCsvMerge_def)
next
  case (Crashes e)
  with cfg ok show ?thesis by (simp add: processCsvMerge_def)
qed

lemma process_warning_count:
  assumes cfg: "loadColumnConfig w configPath = Inr cfg"
    and files: "getCsvFiles w inputDir = Inr csvFiles"
    and ok: "fst (processCsvMerge w inputDir outputDir outputFilename configPath) = Returns s"
  shows "warningCount s = length (filter (hasUnexpected w cfg) csvFiles)"
proof -
  from process_returns [OF cfg ok] obtain result
    where m: "mergeCsvFiles w inputDir cfg = Returns result" and succ: "success result"
      and c: "warningCount s
              = length (filter (\<lambda>e. includes_str e warning_sign) (errors result))"
    by blast
  from merge_success_errors [OF m succ] files
  have e: "errors result = concat (map (fileWarnings w cfg) csvFiles)"
    by simp
  have all: "filter (\<lambda>e. includes_str e warning_sign) (concat (map (fileWarnings w cfg) csvFiles))
             = concat (map (fileWarnings w cfg) csvFiles)"
    by (rule filter_True) (auto dest: fileWarnings_marked)
  from c show ?thesis by (simp add: e all fileWarnings_count)
qed

lemma map_of_spread:
  "map_of (spread base r) k
   = (case map_of (rev r) k of None \<Rightarrow> map_of base k | Some v \<Rightarrow> Some v)"
  unfolding spread_def
proof (induction r arbitrary: base)
  case Nil
  show ?case by simp
next
  case (Cons p r)
  obtain k' v' where p: "p = (k', v')" by (cases p)
  show ?case
    using Cons.IH [of "define_own base k' v'"] p
    by (auto simp: map_of_define_own map_of_append split: option.splits)
qed

lemma map_of_filter_key:
  "map_of (filter (\<lambda>(k, v). P k) r) k = (if P k then map_of r k else None)"
  by (induction r) auto

text \<open>
  The field \<open>Enterprise\<close> of a transformed record is the value of the source record's own
  column \<open>Enterprise\<close>, whatever the tag, unless that column is removed.
\<close>

lemma transformed_enterprise:
  assumes "wf_record r" and "map_of r ''Enterprise'' = Some v" and "''Enterprise'' \<notin> toRemove"
  shows "map_of (spread [(''Enterprise'', tag)]
                   (map (\<lambda>(k, v). (k, Str v)) (filterRecord r toRemove))) ''Enterprise''
         = Some (Str v)"
proof -
  let ?f = "filter (\<lambda>(k, v). k \<notin> toRemove) r"
  let ?s = "map (\<lambda>(k, v). (k, Str v)) ?f"
  from assms(1) have f: "filterRecord r toRemove = ?f"
    by (rule filterRecord_eq)
  from assms(1) have d: "distinct (map fst ?f)"
    unfolding wf_record_def by (rule distinct_map_filter)
  have c: "fst \<circ> (\<lambda>(k, v). (k, Str v)) = (fst :: string \<times> string \<Rightarrow> string)"
    by (simp add: fun_eq_iff)
  from assms(2,3) have "map_of ?f ''Enterprise'' = Some v"
    by (simp add: map_of_filter_key)
  then have "(''Enterprise'', v) \<in> set ?f" by (rule map_of_SomeD)
  then have "(''Enterprise'', Str v) \<in> set (rev ?s)" by force
  moreover have "map fst (rev ?s) = rev (map fst ?f)" by (simp only: rev_map map_map c)
  with d have "distinct (map fst (rev ?s))" by (simp only: distinct_rev)
  ultimately have "map_of (rev ?s) ''Enterprise'' = Some (Str v)" by (rule map_of_is_SomeI [rotated])
  then show ?thesis by (simp add: f map_of_spread)
qed

section \<open>Claims on the merge engine and the orchestrator\<close>

text \<open>
  C2. Two failures of a single file do not end as the claim says. In the first run the
  second entry of the directory cannot be read (it is a directory named like a CSV
  file): the read stream emits \<open>error\<close>, which has no listener, since \<open>getCsvHeaders\<close>
  and \<open>readCsvFile\<close> listen on the parser only; the process ends on the unhandled event,
  \<open>mergeCsvFiles\<close> returns no result and \<open>processCsvMerge\<close> throws nothing. In the
  second run the second file is empty: the promise of \<open>getCsvHeaders\<close> is never settled,
  and neither is that of \<open>mergeCsvFiles\<close> or \<open>processCsvMerge\<close>. Neither run has a merge
  result with \<open>success = False\<close> or a thrown error naming the file. In both, as in every
  run where a file fails or the directory holds no CSV file, the writer is not called
  (\<open>failing_run_writes_nothing\<close>); a failure that arrives as a rejection, and an empty
  directory, end as the claim says (\<open>settled_failure_throws\<close>, \<open>no_files_throws\<close>), as
  the runs with a malformed file and without CSV files below do.
\<close>

theorem unhandled_read_failures:
  "getCsvFiles world_unreadable ''in''
     = Inr [''in/ghec_orgA_data.csv'', ''in/ghes_orgB_data.csv'', ''in/ghec_orgC_data.csv''] \<and>
   fileFails world_unreadable ''in/ghes_orgB_data.csv'' \<and>
   mergeCsvFiles world_unreadable ''in'' config_AB
     = Crashes ''EISDIR: illegal operation on a directory, read'' \<and>
   processCsvMerge world_unreadable ''in'' ''out'' ''merged_data'' ''column-config.json''
     = (Crashes ''EISDIR: illegal operation on a directory, read'', []) \<and>
   fileFails world_headerless ''in/ghes_orgB_data.csv'' \<and>
   mergeCsvFiles world_headerless ''in'' config_AB = NeverSettles \<and>
   processCsvMerge world_headerless ''in'' ''out'' ''merged_data'' ''column-config.json''
     = (NeverSettles, []) \<and>
   fileFails world_malformed ''in/ghes_orgB_data.csv'' \<and>
   mergeCsvFiles world_malformed ''in'' config_AB
     = Returns \<lparr>success = False,
                records = [ [(''Enterprise'', Str ''GHEC''), (''Org_Name'', Str ''o''),
                             (''Repo_Name'', Str ''r'')] ],
                totalFiles = 3, totalRecords = 1,
                errors = [''Error processing file ghes_orgB_data.csv: '' @
                          ''Error reading CSV file in/ghes_orgB_data.csv: '' @
                          ''Row length does not match headers'']\<rparr> \<and>
   processCsvMerge world_malformed ''in'' ''out'' ''merged_data'' ''column-config.json''
     = (Throws (''Merge failed: Error processing file ghes_orgB_data.csv: '' @
                ''Error reading CSV file in/ghes_orgB_data.csv: '' @
                ''Row length does not match headers''), []) \<and>
   mergeCsvFiles world_empty ''in'' config_AB
     = Returns \<lparr>success = False, records = [], totalFiles = 0, totalRecords = 0,
                errors = [''No CSV files found in directory: in'']\<rparr> \<and>
   processCsvMerge world_empty ''in'' ''out'' ''merged_data'' ''column-config.json''
     = (Throws ''Merge failed: No CSV files found in directory: in'', [])"
  by code_simp

text \<open>
  C7. The unexpected columns of a file are exactly its headers that are in neither the
  canonical columns nor the exclusion list, in header order; a file with unexpected
  columns yields exactly one warning string and a file without yields none; the
  informational note on removed columns is never among the warnings; and the warning total
  of a successful run is the number of files with an unexpected column.
\<close>

theorem unexpected_columns_warn_once:
  "unexpectedColumns headers cfg
     = filter (\<lambda>header. header \<notin> set (columns cfg) \<and> header \<notin> set (removeList cfg)) headers
   \<and> warnings (fst (validateAndFilterColumns filePath headers cfg))
     = (if unexpectedColumns headers cfg = [] then []
        else [warningMsg filePath (unexpectedColumns headers cfg)])
   \<and> removedNote filePath' removed \<notin> set (warnings (fst (validateAndFilterColumns filePath headers cfg)))
   \<and> (loadColumnConfig w configPath = Inr cfg \<and> getCsvFiles w inputDir = Inr csvFiles \<and>
      fst (processCsvMerge w inputDir outputDir outputFilename configPath) = Returns s
      \<longrightarrow> warningCount s = length (filter (hasUnexpected w cfg) csvFiles))"
proof (intro conjI impI)
  show "unexpectedColumns headers cfg
     = filter (\<lambda>header. header \<notin> set (columns cfg) \<and> header \<notin> set (removeList cfg)) headers"
    by (simp add: unexpectedColumns_def)
  show "warnings (fst (validateAndFilterColumns filePath headers cfg))
     = (if unexpectedColumns headers cfg = [] then []
        else [warningMsg filePath (unexpectedColumns headers cfg)])"
    by (rule validate_warnings)
  have "removedNote filePath' removed \<noteq> warningMsg filePath (unexpectedColumns headers cfg)"
    by (simp add: removedNote_def warningMsg_def wastebasket_sign_def warning_sign_def)
  then show "removedNote filePath' removed
               \<notin> set (warnings (fst (validateAndFilterColumns filePath headers cfg)))"
    by (simp add: validate_warnings)
next
  assume "loadColumnConfig w configPath = Inr cfg \<and> getCsvFiles w inputDir = Inr csvFiles \<and>
      fst (processCsvMerge w inputDir outputDir outputFilename configPath) = Returns s"
  then show "warningCount s = length (filter (hasUnexpected w cfg) csvFiles)"
    using process_warning_count by blast
qed

theorem unexpected_columns_warn_once_witness:
  "validateAndFilterColumns ''in/ghec_orgA_data.csv''
      [''Org_Name'', ''Extra_Col'', ''Full_URL'', ''Repo_Name''] config_AB
     = (\<lparr>filteredHeaders = [''Org_Name'', ''Extra_Col'', ''Repo_Name''],
         warnings = [warningMsg ''in/ghec_orgA_data.csv'' [''Extra_Col''] ]\<rparr>,
        [warningMsg ''in/ghec_orgA_data.csv'' [''Extra_Col''],
         removedNote ''in/ghec_orgA_data.csv'' [''Full_URL''] ]) \<and>
   validateAndFilterColumns ''in/GHES_orgB_data.CSV''
      [''Org_Name'', ''Repo_Name'', ''Full_URL''] config_AB
     = (\<lparr>filteredHeaders = [''Org_Name'', ''Repo_Name''], warnings = []\<rparr>,
        [removedNote ''in/GHES_orgB_data.CSV'' [''Full_URL''] ]) \<and>
   loadColumnConfig world_warned ''column-config.json'' = Inr config_AB \<and>
   getCsvFiles world_warned ''in'' = Inr [''in/ghec_orgA_data.csv'', ''in/GHES_orgB_data.CSV''] \<and>
   filter (hasUnexpected world_warned config_AB)
     [''in/ghec_orgA_data.csv'', ''in/GHES_orgB_data.CSV''] = [''in/ghec_orgA_data.csv''] \<and>
   fst (processCsvMerge world_warned ''in'' ''out'' ''merged_data'' ''column-config.json'')
     = Returns \<lparr>filesProcessed = 2, recordsMerged = 2,
                outputFile = ''out/merged_data_20250709_143045.csv'', columnCount = 3,
                warningCount = 1,
                duplicateResults =
                  [\<lparr>column = ''Repo_Name'',
                    duplicateValues =
                      [\<lparr>dup_value = ''r'', dup_count = 2, rowNumbers = [2, 3]\<rparr>]\<rparr>]\<rparr>"
proof -
  have v1: "validateAndFilterColumns ''in/ghec_orgA_data.csv''
      [''Org_Name'', ''Extra_Col'', ''Full_URL'', ''Repo_Name''] config_AB
     = (\<lparr>filteredHeaders = [''Org_Name'', ''Extra_Col'', ''Repo_Name''],
         warnings = [warningMsg ''in/ghec_orgA_data.csv'' [''Extra_Col''] ]\<rparr>,
        [warningMsg ''in/ghec_orgA_data.csv'' [''Extra_Col''],
         removedNote ''in/ghec_orgA_data.csv'' [''Full_URL''] ])"
    by code_simp
  have v2: "validateAndFilterColumns ''in/GHES_orgB_data.CSV''
      [''Org_Name'', ''Repo_Name'', ''Full_URL''] config_AB
     = (\<lparr>filteredHeaders = [''Org_Name'', ''Repo_Name''], warnings = []\<rparr>,
        [removedNote ''in/GHES_orgB_data.CSV'' [''Full_URL''] ])"
    by code_simp
  have cfg: "loadColumnConfig world_warned ''column-config.json'' = Inr config_AB"
    by code_simp
  have files: "getCsvFiles world_warned ''in''
                 = Inr [''in/ghec_orgA_data.csv'', ''in/GHES_orgB_data.CSV'']"
    by code_simp
  have unexpected: "filter (hasUnexpected world_warned config_AB)
     [''in/ghec_orgA_data.csv'', ''in/GHES_orgB_data.CSV''] = [''in/ghec_orgA_data.csv'']"
    by code_simp
  have ran: "fst (processCsvMerge world_warned ''in'' ''out'' ''merged_data''
                    ''column-config.json'')
     = Returns \<lparr>filesProcessed = 2, recordsMerged = 2,
                outputFile = ''out/merged_data_20250709_143045.csv'', columnCount = 3,
                warningCount = 1,
                duplicateResults =
                  [\<lparr>column = ''Repo_Name'',
                    duplicateValues =
                      [\<lparr>dup_value = ''r'', dup_count = 2, rowNumbers = [2, 3]\<rparr>]\<rparr>]\<rparr>"
    by code_simp
  from unexpected_columns_warn_once
         [of "[''Org_Name'', ''Extra_Col'', ''Full_URL'', ''Repo_Name'']" config_AB
             "''in/ghec_orgA_data.csv''" "''in/ghec_orgA_data.csv''" "[''Full_URL'']"
             world_warned "''column-config.json''" "''in''"
             "[''in/ghec_orgA_data.csv'', ''in/GHES_orgB_data.CSV'']" "''out''" "''merged_data''"
             "\<lparr>filesProcessed = 2, recordsMerged = 2,
                outputFile = ''out/merged_data_20250709_143045.csv'', columnCount = 3,
                warningCount = 1,
                duplicateResults =
                  [\<lparr>column = ''Repo_Name'',
                    duplicateValues =
                      [\<lparr>dup_value = ''r'', dup_count = 2, rowNumbers = [2, 3]\<rparr>]\<rparr>]\<rparr>"]
    cfg files ran
  have counted_files:
    "warningCount
       \<lparr>filesProcessed = 2, recordsMerged = 2,
          outputFile = ''out/merged_data_20250709_143045.csv'', columnCount = 3,
          warningCount = 1,
          duplicateResults =
            [\<lparr>column = ''Repo_Name'',
              duplicateValues =
                [\<lparr>dup_value = ''r'', dup_count = 2, rowNumbers = [2, 3]\<rparr>]\<rparr>]\<rparr>
     = length (filter (hasUnexpected world_warned config_AB)
                 [''in/ghec_orgA_data.csv'', ''in/GHES_orgB_data.CSV''])"
    by blast
  from v1 v2 cfg files unexpected ran counted_files show ?thesis by blast
qed

text \<open>
  C1. The file \<open>ghec_orgA_data.csv\<close> has the provenance tag \<open>GHEC\<close>, and its record has a
  column \<open>Enterprise\<close> of its own with the value \<open>SOURCE\<close>. The merged record and the
  record handed to the writer carry \<open>SOURCE\<close> in the field \<open>Enterprise\<close>: the spread of
  the source record comes after the tag in the object literal, so the source value
  overwrites the tag (lemma \<open>transformed_enterprise\<close>), where the claim lets the tag win.
\<close>

theorem source_enterprise_overrides_provenance:
  "extractEnterprise world_own_enterprise (basename ''in/ghec_orgA_data.csv'')
     = Inr (Str ''GHEC'') \<and>
   mergeCsvFiles world_own_enterprise ''in'' config_AB
     = Returns \<lparr>success = True,
                records = [ [(''Enterprise'', Str ''SOURCE''), (''Org_Name'', Str ''a''),
                             (''Repo_Name'', Str ''r'')] ],
                totalFiles = 1, totalRecords = 1,
                errors = [warningMsg ''in/ghec_orgA_data.csv'' [''Enterprise''] ]\<rparr> \<and>
   snd (processCsvMerge world_own_enterprise ''in'' ''out'' ''merged_data''
          ''column-config.json'')
     = [\<lparr>writtenRecords = [ [(''Enterprise'', Str ''SOURCE''), (''Org_Name'', Str ''a''),
                              (''Repo_Name'', Str ''r'')] ],
         outputPath = ''out/merged_data_20250709_143045.csv'',
         writtenColumns = [''Enterprise'', ''Org_Name'', ''Repo_Name'']\<rparr>]"
  by code_simp

end
